theory Spec2Isabelle
  imports Complex_Main "HOL-Library.AList" "HOL-Library.Sublist" "HOL-Library.Multiset"
begin

section \<open>Data model of \<open>paperscraper/scraper.py\<close>\<close>

text \<open>
  Python exceptions are values. The handler in \<open>Scraper.scrape\<close> is \<open>except Exception\<close>,
  so the model keeps apart the instances of \<open>Exception\<close> (named by their class) and the
  instances of \<open>BaseException\<close> that are not instances of \<open>Exception\<close>
  (\<open>KeyboardInterrupt\<close>, \<open>SystemExit\<close>, \<open>asyncio.CancelledError\<close>), which that handler
  does not catch.
\<close>

datatype py_exception = Exception string | BaseException string

text \<open>
  A paper is the dictionary of the Semantic Scholar API; the orchestrator reads only its
  \<open>paperId\<close> and \<open>title\<close> entries, which every record carries.
\<close>

record paper =
  paperId :: string
  title :: string

datatype logger = Logger string

text \<open>
  A Python callable: its \<open>__name__\<close> attribute (absent on callables such as
  \<open>functools.partial\<close> objects) and what awaiting a call does. A call receives the paper, the
  destination path and the keyword arguments, runs on the outside world \<open>'w\<close> (network, file
  system) and either raises or returns a value, of which only the truth value is used.
  \<open>'s\<close> is the type of \<open>ThrottledClientSession\<close> objects.
\<close>

record ('s, 'w) pyfunc =
  dunder_name :: "string option"
  call :: "paper \<Rightarrow> string \<Rightarrow> (string \<times> 's) list \<Rightarrow> 'w \<Rightarrow> (py_exception + bool) \<times> 'w"

record ('s, 'w) ScraperFunction =
  "function" :: "('s, 'w) pyfunc"
  priority :: int
  kwargs :: "(string \<times> 's) list"
  name :: string
  check_pdf :: bool

text \<open>
  The outcome dictionary \<open>scrape_result\<close> maps a strategy name to \<open>"none"\<close>, \<open>"success"\<close> or
  \<open>"failed"\<close>. A Python \<open>dict\<close> keeps insertion order and assigning to a present key keeps its
  place: this is \<open>AList.update\<close> on an association list.
\<close>

type_synonym outcome_map = "(string \<times> string) list"

type_synonym 'w callback = "string \<Rightarrow> outcome_map \<Rightarrow> 'w \<Rightarrow> (py_exception + unit) \<times> 'w"

record ('s, 'w) Scraper =
  scrapers :: "('s, 'w) ScraperFunction list"
  sorted_scrapers :: "('s, 'w) ScraperFunction list list"
  callback :: "'w callback option"

definition init :: "'w callback option \<Rightarrow> ('s, 'w) Scraper" where
  "init cb = \<lparr>scrapers = [], sorted_scrapers = [], callback = cb\<rparr>"

section \<open>Registration\<close>

text \<open>
  \<open>str.replace(old, new)\<close> for a non-empty \<open>old\<close>: the occurrences are replaced from left to
  right, without overlap.
\<close>

function replace :: "string \<Rightarrow> string \<Rightarrow> string \<Rightarrow> string" where
  "replace old new [] = []"
| "replace old new (c # cs) =
     (if old \<noteq> [] \<and> prefix old (c # cs)
      then new @ replace old new (drop (length old) (c # cs))
      else c # replace old new cs)"
  by pat_completeness auto
termination
  by (relation "measure (\<lambda>(old, new, s). length s)") (auto simp: neq_Nil_conv)

text \<open>A keyword parameter that the caller leaves out takes its default.\<close>

definition default :: "'a \<Rightarrow> 'a option \<Rightarrow> 'a" where
  "default d x = (case x of None \<Rightarrow> d | Some v \<Rightarrow> v)"

text \<open>
  \<open>list.sort(key=lambda x: x.priority, reverse=True)\<close>: a stable sort, descending, in which
  elements of equal priority keep their order (the list is reversed, sorted and reversed
  again).
\<close>

definition sort_reverse :: "('s, 'w) ScraperFunction list \<Rightarrow> ('s, 'w) ScraperFunction list" where
  "sort_reverse xs = rev (sort_key priority (rev xs))"

text \<open>
  The tiers: one list per priority of \<open>sorted({s.priority for s in self.scrapers})\<close>,
  in ascending order.
\<close>

definition reshape :: "('s, 'w) ScraperFunction list \<Rightarrow> ('s, 'w) ScraperFunction list list" where
  "reshape xs =
     map (\<lambda>p. filter (\<lambda>s. priority s = p) xs) (sorted_list_of_set (set (map priority xs)))"

text \<open>
  \<open>register_scraper(func, attach_session, priority, name, check, rate_limit)\<close>. An argument
  \<open>None\<close> is a parameter left out. \<open>new_session\<close> stands for
  \<open>ThrottledClientSession(rate_limit=rate_limit, headers=get_header())\<close>, which is not part
  of this module. \<open>func.__name__\<close> raises \<open>AttributeError\<close> on a callable without a name.
\<close>

definition register_scraper ::
  "(real option \<Rightarrow> 's) \<Rightarrow> ('s, 'w) Scraper \<Rightarrow> ('s, 'w) pyfunc \<Rightarrow> bool option \<Rightarrow> int option \<Rightarrow>
   string option \<Rightarrow> bool option \<Rightarrow> real option option \<Rightarrow> py_exception + ('s, 'w) Scraper" where
  "register_scraper new_session self f attach_session prio nm chk rate_limit =
     (case (case nm of
              None \<Rightarrow> (case dunder_name f of
                         None \<Rightarrow> Inl (Exception ''AttributeError'')
                       | Some n \<Rightarrow> Inr (replace ''_scraper'' '''' n))
            | Some n \<Rightarrow> Inr n) of
        Inl e \<Rightarrow> Inl e
      | Inr nm' \<Rightarrow>
          (let kw = (if default False attach_session
                     then AList.update ''session''
                            (new_session (default (Some (15 / 60)) rate_limit)) []
                     else []);
               xs = sort_reverse (scrapers self @
                      [\<lparr>function = f, priority = default 10 prio, kwargs = kw, name = nm',
                        check_pdf = default True chk\<rparr>])
           in Inr (self\<lparr>scrapers := xs, sorted_scrapers := reshape xs\<rparr>)))"

section \<open>One orchestration: \<open>Scraper.scrape\<close>\<close>

text \<open>
  The run threads the outside world through every call of a collaborator and keeps a log
  of these calls with what each returned or raised: the entry into \<open>scrape\<close>, each
  \<open>scraper.function\<close> call, each \<open>check_pdf\<close> call (with the strategy whose artifact is
  checked), each logger call and each call of the reporting callback (with the dictionary
  it was handed).
\<close>

datatype ('s, 'w) event =
    Scrape paper string int
  | Fetch "('s, 'w) ScraperFunction" "py_exception + bool"
  | Check "('s, 'w) ScraperFunction" string "logger option" "py_exception + bool"
  | Debug string
  | LogException string
  | Callback string outcome_map "py_exception + unit"

record ('s, 'w) exec =
  world :: 'w
  trace :: "('s, 'w) event list"

definition emit :: "('s, 'w) event \<Rightarrow> ('s, 'w) exec \<Rightarrow> ('s, 'w) exec" where
  "emit e st = st\<lparr>trace := trace st @ [e]\<rparr>"

text \<open>\<open>if logger is not None: logger.debug(msg)\<close> and the same for \<open>logger.exception\<close>.\<close>

definition log_debug :: "logger option \<Rightarrow> string \<Rightarrow> ('s, 'w) exec \<Rightarrow> ('s, 'w) exec" where
  "log_debug lg msg st = (case lg of None \<Rightarrow> st | Some l \<Rightarrow> emit (Debug msg) st)"

definition log_exception :: "logger option \<Rightarrow> string \<Rightarrow> ('s, 'w) exec \<Rightarrow> ('s, 'w) exec" where
  "log_exception lg msg st = (case lg of None \<Rightarrow> st | Some l \<Rightarrow> emit (LogException msg) st)"

text \<open>How a block of statements ends: it falls through, returns a value or raises.\<close>

datatype flow = Normal | Return bool | Raise py_exception

text \<open>\<open>check_pdf(path, logger or False)\<close> of \<open>paperscraper.utils\<close>, a parameter of the model.\<close>

type_synonym 'w validator = "string \<Rightarrow> logger option \<Rightarrow> 'w \<Rightarrow> (py_exception + bool) \<times> 'w"

text \<open>Lines 87 to 94: the strategy has delivered.\<close>

definition success_path ::
  "('s, 'w) Scraper \<Rightarrow> paper \<Rightarrow> logger option \<Rightarrow> ('s, 'w) ScraperFunction \<Rightarrow>
   outcome_map \<Rightarrow> ('s, 'w) exec \<Rightarrow> flow \<times> outcome_map \<times> ('s, 'w) exec" where
  "success_path self p lg scraper res st =
     (let res1 = AList.update (name scraper) ''success'' res;
          st1 = log_debug lg ([CHR 0x09] @ ''succeeded - key: '' @ paperId p @
                                '' scraper: '' @ name scraper) st
      in case callback self of
           None \<Rightarrow> (Return True, res1, st1)
         | Some cb \<Rightarrow>
             (case cb (title p) res1 (world st1) of
                (Inl e, w) \<Rightarrow>
                  (Raise e, res1, emit (Callback (title p) res1 (Inl e)) (st1\<lparr>world := w\<rparr>))
              | (Inr u, w) \<Rightarrow>
                  (Return True, res1,
                   emit (Callback (title p) res1 (Inr ())) (st1\<lparr>world := w\<rparr>))))"

text \<open>Lines 83 to 94: the body of the \<open>try\<close>.\<close>

definition try_block ::
  "('s, 'w) Scraper \<Rightarrow> 'w validator \<Rightarrow> paper \<Rightarrow> string \<Rightarrow> logger option \<Rightarrow>
   ('s, 'w) ScraperFunction \<Rightarrow> outcome_map \<Rightarrow> ('s, 'w) exec \<Rightarrow>
   flow \<times> outcome_map \<times> ('s, 'w) exec" where
  "try_block self validator p path lg scraper res st =
     (case call (function scraper) p path (kwargs scraper) (world st) of
        (Inl e, w) \<Rightarrow> (Raise e, res, emit (Fetch scraper (Inl e)) (st\<lparr>world := w\<rparr>))
      | (Inr result, w) \<Rightarrow>
          (let st1 = emit (Fetch scraper (Inr result)) (st\<lparr>world := w\<rparr>)
           in if \<not> result then (Normal, res, st1)
              else if \<not> check_pdf scraper then success_path self p lg scraper res st1
              else (case validator path lg (world st1) of
                      (Inl e, w') \<Rightarrow>
                        (Raise e, res, emit (Check scraper path lg (Inl e)) (st1\<lparr>world := w'\<rparr>))
                    | (Inr ok, w') \<Rightarrow>
                        (let st2 = emit (Check scraper path lg (Inr ok)) (st1\<lparr>world := w'\<rparr>)
                         in if ok then success_path self p lg scraper res st2
                            else (Normal, res, st2)))))"

text \<open>
  Lines 82 to 98: one strategy. \<open>except Exception\<close> catches what the \<open>try\<close> raised when it
  is an instance of \<open>Exception\<close>, logs it and falls through to line 98.
\<close>

definition attempt ::
  "('s, 'w) Scraper \<Rightarrow> 'w validator \<Rightarrow> paper \<Rightarrow> string \<Rightarrow> logger option \<Rightarrow>
   ('s, 'w) ScraperFunction \<Rightarrow> outcome_map \<Rightarrow> ('s, 'w) exec \<Rightarrow>
   flow \<times> outcome_map \<times> ('s, 'w) exec" where
  "attempt self validator p path lg scraper res st =
     (case try_block self validator p path lg scraper res st of
        (Return b, res', st') \<Rightarrow> (Return b, res', st')
      | (Raise (BaseException e), res', st') \<Rightarrow> (Raise (BaseException e), res', st')
      | (Raise (Exception e), res', st') \<Rightarrow>
          (Normal, AList.update (name scraper) ''failed'' res',
           log_exception lg ([CHR 0x09] @ ''Scraper '' @ name scraper @ '' failed.'') st')
      | (Normal, res', st') \<Rightarrow> (Normal, AList.update (name scraper) ''failed'' res', st'))"

text \<open>
  Lines 80 to 98: \<open>for j in range(len(scrapers))\<close>, over the offsets \<open>js\<close> still to run.
  Python's \<open>%\<close> with a positive modulus is never negative, as \<open>mod\<close> on \<open>int\<close>.
\<close>

fun tier_loop ::
  "('s, 'w) Scraper \<Rightarrow> 'w validator \<Rightarrow> paper \<Rightarrow> string \<Rightarrow> int \<Rightarrow> logger option \<Rightarrow>
   ('s, 'w) ScraperFunction list \<Rightarrow> nat list \<Rightarrow> outcome_map \<Rightarrow> ('s, 'w) exec \<Rightarrow>
   flow \<times> outcome_map \<times> ('s, 'w) exec" where
  "tier_loop self validator p path i lg tier [] res st = (Normal, res, st)"
| "tier_loop self validator p path i lg tier (j # js) res st =
     (case attempt self validator p path lg
             (tier ! nat ((i + int j) mod int (length tier))) res st of
        (Normal, res', st') \<Rightarrow> tier_loop self validator p path i lg tier js res' st'
      | (Return b, res', st') \<Rightarrow> (Return b, res', st')
      | (Raise e, res', st') \<Rightarrow> (Raise e, res', st'))"

text \<open>
  Lines 79 to 101: \<open>for scrapers in self.sorted_scrapers[::-1]\<close>, over the tiers still to
  run, with the callback of lines 99 and 100 after a tier that did not return.
\<close>

fun scrape_loop ::
  "('s, 'w) Scraper \<Rightarrow> 'w validator \<Rightarrow> paper \<Rightarrow> string \<Rightarrow> int \<Rightarrow> logger option \<Rightarrow>
   ('s, 'w) ScraperFunction list list \<Rightarrow> outcome_map \<Rightarrow> ('s, 'w) exec \<Rightarrow>
   (py_exception + bool) \<times> outcome_map \<times> ('s, 'w) exec" where
  "scrape_loop self validator p path i lg [] res st = (Inr False, res, st)"
| "scrape_loop self validator p path i lg (tier # tiers) res st =
     (case tier_loop self validator p path i lg tier [0..<length tier] res st of
        (Return b, res', st') \<Rightarrow> (Inr b, res', st')
      | (Raise e, res', st') \<Rightarrow> (Inl e, res', st')
      | (Normal, res', st') \<Rightarrow>
          (case callback self of
             None \<Rightarrow> scrape_loop self validator p path i lg tiers res' st'
           | Some cb \<Rightarrow>
               (case cb (title p) res' (world st') of
                  (Inl e, w) \<Rightarrow>
                    (Inl e, res', emit (Callback (title p) res' (Inl e)) (st'\<lparr>world := w\<rparr>))
                | (Inr u, w) \<Rightarrow>
                    scrape_loop self validator p path i lg tiers res'
                      (emit (Callback (title p) res' (Inr ())) (st'\<lparr>world := w\<rparr>)))))"

text \<open>
  \<open>scrape(paper, path, i, logger)\<close>. The result is what the coroutine returns or raises,
  with the dictionary \<open>scrape_result\<close> at that point and the world and log after the run.
\<close>

definition scrape ::
  "('s, 'w) Scraper \<Rightarrow> 'w validator \<Rightarrow> paper \<Rightarrow> string \<Rightarrow> int \<Rightarrow> logger option \<Rightarrow>
   ('s, 'w) exec \<Rightarrow> (py_exception + bool) \<times> outcome_map \<times> ('s, 'w) exec" where
  "scrape self validator p path i lg st =
     scrape_loop self validator p path i lg (rev (sorted_scrapers self))
       (fold (\<lambda>s. AList.update (name s) ''none'') (scrapers self) [])
       (emit (Scrape p path i) st)"

text \<open>The projections of a log: the strategies invoked and the reports made, in order.\<close>

fun fetched :: "('s, 'w) event list \<Rightarrow> ('s, 'w) ScraperFunction list" where
  "fetched [] = []"
| "fetched (Fetch s r # evs) = s # fetched evs"
| "fetched (e # evs) = fetched evs"

fun reports :: "('s, 'w) event list \<Rightarrow> (string \<times> outcome_map) list" where
  "reports [] = []"
| "reports (Callback t m r # evs) = (t, m) # reports evs"
| "reports (e # evs) = reports evs"

text \<open>The reporter raised during the calls logged.\<close>

fun reporter_raised :: "('s, 'w) event list \<Rightarrow> bool" where
  "reporter_raised [] = False"
| "reporter_raised (Callback t m (Inl e) # evs) = True"
| "reporter_raised (e # evs) = reporter_raised evs"

text \<open>A strategy or the validator raised what \<open>except Exception\<close> does not catch.\<close>

fun base_raised :: "('s, 'w) event list \<Rightarrow> bool" where
  "base_raised [] = False"
| "base_raised (Fetch s (Inl (BaseException n)) # evs) = True"
| "base_raised (Check s path lg (Inl (BaseException n)) # evs) = True"
| "base_raised (e # evs) = base_raised evs"

text \<open>
  In the calls logged, the fetch of strategy \<open>s\<close> returned a true value and, when the
  strategy asks for the check, the validator approved its artifact.
\<close>

definition delivered ::
  "string \<Rightarrow> logger option \<Rightarrow> ('s, 'w) event list \<Rightarrow> ('s, 'w) ScraperFunction \<Rightarrow> bool" where
  "delivered path lg evs s \<longleftrightarrow>
     Fetch s (Inr True) \<in> set evs \<and> (check_pdf s \<longrightarrow> Check s path lg (Inr True) \<in> set evs)"

text \<open>The last call that decides it: the validator's when it is asked, the fetch otherwise.\<close>

definition won ::
  "string \<Rightarrow> logger option \<Rightarrow> ('s, 'w) event list \<Rightarrow> ('s, 'w) ScraperFunction \<Rightarrow> bool" where
  "won path lg evs s \<longleftrightarrow>
     (if check_pdf s then Check s path lg (Inr True) \<in> set evs
      else Fetch s (Inr True) \<in> set evs)"

text \<open>
  The order of visit that the specification describes: in a tier of size \<open>n\<close> the strategy
  at position \<open>(i + offset) mod n\<close> for the offsets \<open>0..n-1\<close>, the tiers from the last of
  \<open>sorted_scrapers\<close> to the first.
\<close>

definition pick :: "int \<Rightarrow> 'a list \<Rightarrow> nat \<Rightarrow> 'a" where
  "pick i tier offset = tier ! nat ((i + int offset) mod int (length tier))"

definition tier_order :: "int \<Rightarrow> 'a list \<Rightarrow> 'a list" where
  "tier_order i tier = map (pick i tier) [0..<length tier]"

definition visit_order :: "int \<Rightarrow> 'a list list \<Rightarrow> 'a list" where
  "visit_order i tiers = concat (map (tier_order i) (rev tiers))"

text \<open>The dictionary after the strategies \<open>xs\<close> were marked as failed, one after the other.\<close>

definition mark_failed :: "('s, 'w) ScraperFunction list \<Rightarrow> outcome_map \<Rightarrow> outcome_map" where
  "mark_failed xs res = fold (\<lambda>s. AList.update (name s) ''failed'') xs res"

fun scrapes :: "('s, 'w) event list \<Rightarrow> (paper \<times> string \<times> int) list" where
  "scrapes [] = []"
| "scrapes (Scrape p path i # evs) = (p, path, i) # scrapes evs"
| "scrapes (e # evs) = scrapes evs"

section \<open>The batch: \<open>Scraper.batch_scrape\<close>\<close>

text \<open>\<open>os.path.join(a, b)\<close> of \<open>posixpath\<close>, for two components.\<close>

definition os_path_join :: "string \<Rightarrow> string \<Rightarrow> string" where
  "os_path_join a b =
     (if prefix ''/'' b then b
      else if a = [] \<or> suffix ''/'' a then a @ b
      else a @ ''/'' @ b)"

text \<open>
  \<open>range(start, stop, step)\<close>: a step of zero raises \<open>ValueError\<close>; the length is that of
  CPython's \<open>range\<close> object.
\<close>

definition py_range :: "int \<Rightarrow> int \<Rightarrow> int \<Rightarrow> py_exception + int list" where
  "py_range start stop step =
     (if step = 0 then Inl (Exception ''ValueError'')
      else if 0 < step
      then Inr (map (\<lambda>k. start + int k * step) [0..<nat ((stop - start + step - 1) div step)])
      else Inr (map (\<lambda>k. start + int k * step)
                  [0..<nat ((start - stop - step - 1) div (- step))]))"

text \<open>\<open>xs[a:b]\<close> for bounds that are not negative, as they are in \<open>batch_scrape\<close>.\<close>

definition slice :: "'a list \<Rightarrow> int \<Rightarrow> int \<Rightarrow> 'a list" where
  "slice xs a b = take (nat b - nat a) (drop (nat a) xs)"

type_synonym 'w parser = "paper \<Rightarrow> 'w \<Rightarrow> (py_exception + paper) \<times> 'w"

type_synonym batch_result = "(string \<times> paper) list"

text \<open>The inner coroutine \<open>scrape_parse(paper, i)\<close>; \<open>None\<close> is its result \<open>False\<close>.\<close>

definition scrape_parse ::
  "('s, 'w) Scraper \<Rightarrow> 'w validator \<Rightarrow> string \<Rightarrow> 'w parser \<Rightarrow> logger option \<Rightarrow> paper \<Rightarrow> int \<Rightarrow>
   ('s, 'w) exec \<Rightarrow> (py_exception + (string \<times> paper) option) \<times> ('s, 'w) exec" where
  "scrape_parse self validator paper_file_dump_dir parser lg p i st =
     (let path = os_path_join paper_file_dump_dir (paperId p @ ''.pdf'')
      in case scrape self validator p path i lg st of
           (Inl e, res, st') \<Rightarrow> (Inl e, st')
         | (Inr success, res, st') \<Rightarrow>
             if success
             then (case parser p (world st') of
                     (Inl e, w) \<Rightarrow> (Inl e, st'\<lparr>world := w\<rparr>)
                   | (Inr m, w) \<Rightarrow> (Inr (Some (path, m)), st'\<lparr>world := w\<rparr>))
             else (Inr None, st'))"

text \<open>
  \<open>asyncio.gather\<close> on the coroutines of one window, in the schedule the event loop follows
  when no collaborator suspends: the tasks run to completion one after the other, in the
  order of the list, and the first exception is what the \<open>await\<close> raises.
\<close>

fun gather ::
  "(('s, 'w) exec \<Rightarrow> (py_exception + 'r) \<times> ('s, 'w) exec) list \<Rightarrow> ('s, 'w) exec \<Rightarrow>
   (py_exception + 'r list) \<times> ('s, 'w) exec" where
  "gather [] st = (Inr [], st)"
| "gather (t # ts) st =
     (case t st of
        (Inl e, st') \<Rightarrow> (Inl e, st')
      | (Inr r, st') \<Rightarrow>
          (case gather ts st' of
             (Inl e, st'') \<Rightarrow> (Inl e, st'')
           | (Inr rs, st'') \<Rightarrow> (Inr (r # rs), st'')))"

text \<open>\<open>{r[0]: r[1] for r in results if r is not False}\<close> and \<open>aggregated |= d\<close>.\<close>

definition dict_of :: "(string \<times> paper) option list \<Rightarrow> batch_result" where
  "dict_of rs = fold (\<lambda>(k, v). AList.update k v) (List.map_filter (\<lambda>r. r) rs) []"

definition dict_ior :: "batch_result \<Rightarrow> batch_result \<Rightarrow> batch_result" where
  "dict_ior aggregated d = fold (\<lambda>(k, v). AList.update k v) d aggregated"

text \<open>
  Lines 146 to 158: \<open>for i in range(0, len(papers), batch_size)\<close>, over the window starts
  \<open>is\<close> still to run, with the \<open>break\<close> once the limit is reached.
\<close>

fun batch_loop ::
  "('s, 'w) Scraper \<Rightarrow> 'w validator \<Rightarrow> paper list \<Rightarrow> string \<Rightarrow> 'w parser \<Rightarrow> int \<Rightarrow>
   int option \<Rightarrow> logger option \<Rightarrow> int list \<Rightarrow> batch_result \<Rightarrow> ('s, 'w) exec \<Rightarrow>
   (py_exception + batch_result) \<times> ('s, 'w) exec" where
  "batch_loop self validator papers dir parser batch_size limit lg [] aggregated st =
     (Inr aggregated, st)"
| "batch_loop self validator papers dir parser batch_size limit lg (i # is) aggregated st =
     (case gather (map (\<lambda>(j, p). scrape_parse self validator dir parser lg p (i + int j))
                    (enumerate 0 (slice papers i (i + batch_size)))) st of
        (Inl e, st') \<Rightarrow> (Inl e, st')
      | (Inr rs, st') \<Rightarrow>
          (let aggregated' = dict_ior aggregated (dict_of rs)
           in if (case limit of None \<Rightarrow> False | Some l \<Rightarrow> l \<le> int (length aggregated'))
              then (Inr aggregated', st')
              else batch_loop self validator papers dir parser batch_size limit lg is
                     aggregated' st'))"

text \<open>
  \<open>batch_scrape(papers, paper_file_dump_dir, paper_parser, batch_size, limit, logger)\<close>;
  without a \<open>paper_parser\<close> the parser returns the paper, and a \<open>batch_size\<close> left out
  is 10.
\<close>

definition batch_scrape ::
  "('s, 'w) Scraper \<Rightarrow> 'w validator \<Rightarrow> paper list \<Rightarrow> string \<Rightarrow> 'w parser option \<Rightarrow>
   int option \<Rightarrow> int option \<Rightarrow> logger option \<Rightarrow> ('s, 'w) exec \<Rightarrow>
   (py_exception + batch_result) \<times> ('s, 'w) exec" where
  "batch_scrape self validator papers paper_file_dump_dir paper_parser batch_size limit lg st =
     (let parser = (case paper_parser of None \<Rightarrow> (\<lambda>p w. (Inr p, w)) | Some f \<Rightarrow> f);
          bs = default 10 batch_size
      in case py_range 0 (int (length papers)) bs of
           Inl e \<Rightarrow> (Inl e, st)
         | Inr starts \<Rightarrow>
             batch_loop self validator papers paper_file_dump_dir parser bs limit lg starts [] st)"

section \<open>Reachable registries\<close>

text \<open>The registries that a program can build: a fresh \<open>Scraper\<close> and successful registrations.\<close>

inductive reachable :: "('s, 'w) Scraper \<Rightarrow> bool" where
  fresh: "reachable (init cb)"
| registered:
    "reachable self \<Longrightarrow>
     register_scraper new_session self f attach_session prio nm chk rate_limit = Inr self' \<Longrightarrow>
     reachable self'"

section \<open>What a run leaves behind\<close>

text \<open>
  The reports of one call of the callback with the dictionary \<open>res\<close>: none without a callback.
\<close>

definition cbrep :: "('s, 'w) Scraper \<Rightarrow> paper \<Rightarrow> outcome_map \<Rightarrow> (string \<times> outcome_map) list" where
  "cbrep self p res = (case callback self of None \<Rightarrow> [] | Some cb \<Rightarrow> [(title p, res)])"

text \<open>
  What a logger call adds to the log: nothing without a logger.
\<close>

definition log_events :: "logger option \<Rightarrow> ('s, 'w) event \<Rightarrow> ('s, 'w) event list" where
  "log_events lg e = (case lg of None \<Rightarrow> [] | Some l \<Rightarrow> [e])"

text \<open>
  What one strategy leaves behind, by the way its block ended: the events \<open>evs\<close> it
  logged, the dictionary \<open>res'\<close> after it.
\<close>

definition attempt_post where
  "attempt_post self p path lg s res fl res' evs \<longleftrightarrow>
     fetched evs = [s] \<and> scrapes evs = [] \<and> (\<forall>s'. s' \<noteq> s \<longrightarrow> \<not> won path lg evs s') \<and>
     (fl = Normal \<longrightarrow> res' = AList.update (name s) ''failed'' res \<and> \<not> base_raised evs \<and>
        (\<not> won path lg evs s \<and> reports evs = [] \<or> reporter_raised evs)) \<and>
     (\<forall>b. fl = Return b \<longrightarrow> b \<and> won path lg evs s \<and> \<not> reporter_raised evs \<and>
        \<not> base_raised evs \<and> res' = AList.update (name s) ''success'' res \<and>
        (\<exists>ys. evs = Fetch s (Inr True) # ys \<and> fetched ys = [] \<and> reports ys = cbrep self p res')) \<and>
     (\<forall>e. fl = Raise e \<longrightarrow> (\<exists>n. e = BaseException n) \<and>
        (\<not> won path lg evs s \<and> base_raised evs \<and> reports evs = [] \<or> reporter_raised evs))"

text \<open>
  Nothing was won and nothing reported in the events, unless the reporter raised.
\<close>

definition quiet where
  "quiet path lg evs \<longleftrightarrow> (\<forall>s. \<not> won path lg evs s) \<and> reports evs = [] \<or> reporter_raised evs"

text \<open>
  Nothing was won in the events, unless the reporter raised.
\<close>

definition calm where
  "calm path lg evs \<longleftrightarrow> (\<forall>s. \<not> won path lg evs s) \<or> reporter_raised evs"

text \<open>
  The events of a run that returned \<open>True\<close>: a calm prefix, the fetch that delivered, and
  after it no other fetch and the one report of the final dictionary.
\<close>

definition success_tail where
  "success_tail self p path lg res' evs \<longleftrightarrow>
     (\<exists>xs s ys res0. evs = xs @ Fetch s (Inr True) # ys \<and> fetched ys = [] \<and>
             reports ys = cbrep self p res' \<and> res' = AList.update (name s) ''success'' res0 \<and>
             calm path lg xs \<and>
             won path lg (Fetch s (Inr True) # ys) s \<and>
             (\<forall>s'. s' \<noteq> s \<longrightarrow> \<not> won path lg (Fetch s (Inr True) # ys) s') \<and>
             \<not> reporter_raised ys)"

text \<open>
  What the loop over one tier leaves behind, \<open>expected\<close> being the strategies it would
  visit if none returned.
\<close>

definition tier_post where
  "tier_post self p path lg expected res fl res' evs \<longleftrightarrow>
     scrapes evs = [] \<and> prefix (fetched evs) expected \<and>
     (fl = Normal \<longrightarrow> fetched evs = expected \<and> res' = mark_failed expected res \<and>
        \<not> base_raised evs \<and> quiet path lg evs) \<and>
     (\<forall>b. fl = Return b \<longrightarrow> b \<and> success_tail self p path lg res' evs) \<and>
     (\<forall>e. fl = Raise e \<longrightarrow> (\<exists>n. e = BaseException n) \<and>
        ((\<forall>s. \<not> won path lg evs s) \<and> base_raised evs \<and> reports evs = [] \<or> reporter_raised evs))"

text \<open>
  The reports of a run in which every tier fails: after each tier, the dictionary in which
  the strategies visited so far are marked as failed.
\<close>

fun tier_reports ::
  "('s, 'w) Scraper \<Rightarrow> paper \<Rightarrow> int \<Rightarrow> ('s, 'w) ScraperFunction list list \<Rightarrow> outcome_map \<Rightarrow>
   (string \<times> outcome_map) list" where
  "tier_reports self p i [] res = []"
| "tier_reports self p i (t # ts) res =
     cbrep self p (mark_failed (tier_order i t) res) @
     tier_reports self p i ts (mark_failed (tier_order i t) res)"

text \<open>
  What the loop over the tiers leaves behind.
\<close>

definition loop_post where
  "loop_post self p path lg i tiers res r res' evs \<longleftrightarrow>
     scrapes evs = [] \<and> prefix (fetched evs) (concat (map (tier_order i) tiers)) \<and>
     (r = Inr False \<longrightarrow> fetched evs = concat (map (tier_order i) tiers) \<and>
        res' = mark_failed (concat (map (tier_order i) tiers)) res \<and> \<not> base_raised evs \<and>
        calm path lg evs \<and>
        (\<not> reporter_raised evs \<longrightarrow> reports evs = tier_reports self p i tiers res)) \<and>
     (r = Inr True \<longrightarrow> success_tail self p path lg res' evs) \<and>
     (\<forall>e. r = Inl e \<longrightarrow>
        ((\<exists>n. e = BaseException n) \<or> (\<exists>pre t m. evs = pre @ [Callback t m (Inl e)])) \<and>
        ((\<forall>s. \<not> won path lg evs s) \<and> base_raised evs \<or> reporter_raised evs))"

text \<open>
  In the events, the validator was called only for a strategy whose fetch had returned a
  true value.
\<close>

definition checks_follow :: "('s, 'w) event list \<Rightarrow> bool" where
  "checks_follow evs \<longleftrightarrow>
     (\<forall>s pa l c. Check s pa l c \<in> set evs \<longrightarrow> Fetch s (Inr True) \<in> set evs)"

text \<open>
  What the batch launches for the record at position \<open>n\<close> of the input: the record, its
  destination path and its position as the rotation index.
\<close>

definition launched :: "string \<Rightarrow> paper list \<Rightarrow> nat \<Rightarrow> paper \<times> string \<times> int" where
  "launched dir papers n =
     (papers ! n, os_path_join dir (paperId (papers ! n) @ ''.pdf''), int n)"

text \<open>The test of line 157: a limit is set and the accumulated result has reached it.\<close>

definition reached :: "int option \<Rightarrow> batch_result \<Rightarrow> bool" where
  "reached limit aggregated \<longleftrightarrow>
     (case limit of None \<Rightarrow> False | Some l \<Rightarrow> l \<le> int (length aggregated))"

text \<open>The number of windows of size \<open>b\<close> over \<open>n\<close> records.\<close>

definition windows :: "nat \<Rightarrow> nat \<Rightarrow> nat" where
  "windows n b = (n + b - 1) div b"

section \<open>A concrete registry\<close>

text \<open>
  The scenario of the specification: strategies \<open>A\<close> and \<open>B\<close> of priority 10 and \<open>C\<close> of
  priority 5, none with validation. The world counts the calls made to the outside. \<open>A\<close>
  returns a false value, \<open>B\<close> raises and \<open>C\<close> delivers.
\<close>

definition returning :: "bool \<Rightarrow> string \<Rightarrow> (real option, nat) pyfunc" where
  "returning b n = \<lparr>dunder_name = Some n, call = (\<lambda>p path kw w. (Inr b, Suc w))\<rparr>"

definition raising :: "py_exception \<Rightarrow> string \<Rightarrow> (real option, nat) pyfunc" where
  "raising e n = \<lparr>dunder_name = Some n, call = (\<lambda>p path kw w. (Inl e, Suc w))\<rparr>"

definition strategy_A :: "(real option, nat) ScraperFunction" where
  "strategy_A = \<lparr>function = returning False ''a_scraper'', priority = 10, kwargs = [],
                  name = ''A'', check_pdf = False\<rparr>"

definition strategy_B :: "(real option, nat) ScraperFunction" where
  "strategy_B = \<lparr>function = raising (Exception ''RuntimeError'') ''b_scraper'', priority = 10,
                  kwargs = [], name = ''B'', check_pdf = False\<rparr>"

definition strategy_C :: "(real option, nat) ScraperFunction" where
  "strategy_C = \<lparr>function = returning True ''c_scraper'', priority = 5, kwargs = [],
                  name = ''C'', check_pdf = False\<rparr>"

definition registry_ABC :: "nat callback option \<Rightarrow> (real option, nat) Scraper" where
  "registry_ABC cb = \<lparr>scrapers = [strategy_A, strategy_B, strategy_C],
                       sorted_scrapers = [[strategy_C], [strategy_A, strategy_B]],
                       callback = cb\<rparr>"

text \<open>The same registry without \<open>C\<close>: no strategy delivers.\<close>

definition registry_AB :: "nat callback option \<Rightarrow> (real option, nat) Scraper" where
  "registry_AB cb = \<lparr>scrapers = [strategy_A, strategy_B],
                      sorted_scrapers = [[strategy_A, strategy_B]], callback = cb\<rparr>"

definition reporter :: "nat callback" where
  "reporter t m w = (Inr (), Suc w)"

definition broken_reporter :: "nat callback" where
  "broken_reporter t m w = (Inl (Exception ''ValueError''), Suc w)"

definition approving :: "nat validator" where
  "approving path lg w = (Inr True, Suc w)"

definition paper_1 :: paper where
  "paper_1 = \<lparr>paperId = ''p1'', title = ''Paper one''\<rparr>"

definition start :: "(real option, nat) exec" where
  "start = \<lparr>world = 0, trace = []\<rparr>"

text \<open>
  The run of \<open>scrape\<close> on the three strategies with rotation index 1 and the reporter: the
  events it logs and the dictionary it ends with.
\<close>

definition events_ABC :: "(real option, nat) event list" where
  "events_ABC =
     [Scrape paper_1 ''out/p1.pdf'' 1,
      Fetch strategy_B (Inl (Exception ''RuntimeError'')),
      Fetch strategy_A (Inr False),
      Callback ''Paper one'' [(''A'', ''failed''), (''B'', ''failed''), (''C'', ''none'')] (Inr ()),
      Fetch strategy_C (Inr True),
      Callback ''Paper one'' [(''A'', ''failed''), (''B'', ''failed''), (''C'', ''success'')]
        (Inr ())]"

definition outcome_ABC :: outcome_map where
  "outcome_ABC = [(''A'', ''failed''), (''B'', ''failed''), (''C'', ''success'')]"

text \<open>The same for the two strategies that fail.\<close>

definition events_AB :: "(real option, nat) event list" where
  "events_AB =
     [Scrape paper_1 ''out/p1.pdf'' 1,
      Fetch strategy_B (Inl (Exception ''RuntimeError'')),
      Fetch strategy_A (Inr False),
      Callback ''Paper one'' [(''A'', ''failed''), (''B'', ''failed'')] (Inr ())]"

text \<open>
  The registry of \<open>C\<close> alone, a strategy that is cancelled while it fetches (its fetch
  raises \<open>asyncio.CancelledError\<close>, which is not an \<open>Exception\<close>), and a reporter that is
  cancelled.
\<close>

definition registry_C :: "nat callback option \<Rightarrow> (real option, nat) Scraper" where
  "registry_C cb = \<lparr>scrapers = [strategy_C], sorted_scrapers = [[strategy_C]], callback = cb\<rparr>"

definition strategy_X :: "(real option, nat) ScraperFunction" where
  "strategy_X = \<lparr>function = raising (BaseException ''CancelledError'') ''x_scraper'',
                  priority = 10, kwargs = [], name = ''X'', check_pdf = False\<rparr>"

definition registry_X :: "nat callback option \<Rightarrow> (real option, nat) Scraper" where
  "registry_X cb = \<lparr>scrapers = [strategy_X], sorted_scrapers = [[strategy_X]], callback = cb\<rparr>"

definition cancelled_reporter :: "nat callback" where
  "cancelled_reporter t m w = (Inl (BaseException ''CancelledError''), Suc w)"

text \<open>
  The batch scenario of the specification: five records, windows of two, a limit of three,
  every record delivered by \<open>C\<close>. The windows at 0 and 2 run and the one at 4 does not.
\<close>

definition paper_n :: "string \<Rightarrow> paper" where
  "paper_n i = \<lparr>paperId = i, title = ''Paper '' @ i\<rparr>"

definition papers_5 :: "paper list" where
  "papers_5 = [paper_n ''p0'', paper_n ''p1'', paper_n ''p2'', paper_n ''p3'', paper_n ''p4'']"

definition events_5 :: "(real option, nat) event list" where
  "events_5 =
     [Scrape (paper_n ''p0'') ''out/p0.pdf'' 0, Fetch strategy_C (Inr True),
      Scrape (paper_n ''p1'') ''out/p1.pdf'' 1, Fetch strategy_C (Inr True),
      Scrape (paper_n ''p2'') ''out/p2.pdf'' 2, Fetch strategy_C (Inr True),
      Scrape (paper_n ''p3'') ''out/p3.pdf'' 3, Fetch strategy_C (Inr True)]"

definition result_5 :: batch_result where
  "result_5 =
     [(''out/p0.pdf'', paper_n ''p0''), (''out/p1.pdf'', paper_n ''p1''),
      (''out/p2.pdf'', paper_n ''p2''), (''out/p3.pdf'', paper_n ''p3'')]"

section \<open>Lemmas\<close>

lemma mset_tiers:
  "distinct ps \<Longrightarrow>
   mset (concat (map (\<lambda>p. filter (\<lambda>s. f s = p) xs) ps)) = filter_mset (\<lambda>s. f s \<in> set ps) (mset xs)"
proof (induction ps)
  case Nil
  then show ?case by simp
next
  case (Cons p ps)
  have "filter_mset (\<lambda>s. f s = p) (mset xs) + filter_mset (\<lambda>s. f s \<in> set ps) (mset xs)
        = filter_mset (\<lambda>s. f s \<in> set (p # ps)) (mset xs)"
    using Cons.prems by (induction xs) auto
  with Cons show ?case by simp
qed

lemma mset_reshape: "mset (concat (reshape xs)) = mset xs"
proof -
  have all: "(\<forall>x\<in>set ys. P x) \<Longrightarrow> filter_mset P (mset ys) = mset ys" for P and ys :: "'c list"
    by (induction ys) auto
  have "filter_mset (\<lambda>s. priority s \<in> set (sorted_list_of_set (set (map priority xs)))) (mset xs) = mset xs"
    by (rule all) simp
  then show ?thesis
    unfolding reshape_def by (simp add: mset_tiers)
qed

lemma length_concat_reshape: "sum_list (map length (reshape xs)) = length xs"
proof -
  have "length (concat (reshape xs)) = length xs"
    using mset_reshape [of xs] by (metis size_mset)
  then show ?thesis by (simp add: length_concat)
qed

lemma mset_sort_reverse: "mset (sort_reverse xs) = mset xs"
  by (simp add: sort_reverse_def)

lemma reachable_plan: "reachable self \<Longrightarrow> sorted_scrapers self = reshape (scrapers self)"
proof (induction rule: reachable.induct)
  case (fresh cb)
  show ?case by (simp add: init_def reshape_def)
next
  case (registered self new_session f attach_session prio nm chk rate_limit self')
  from registered.hyps(2) show ?case
    by (auto simp: register_scraper_def Let_def split: option.splits sum.splits)
qed




lemma fetched_append [simp]: "fetched (a @ b) = fetched a @ fetched b"
  by (induction a rule: fetched.induct) auto

lemma reports_append [simp]: "reports (a @ b) = reports a @ reports b"
  by (induction a rule: reports.induct) auto

lemma scrapes_append [simp]: "scrapes (a @ b) = scrapes a @ scrapes b"
  by (induction a rule: scrapes.induct) auto

lemma reporter_raised_append [simp]: "reporter_raised (a @ b) \<longleftrightarrow> reporter_raised a \<or> reporter_raised b"
  by (induction a rule: reporter_raised.induct) auto

lemma base_raised_append [simp]: "base_raised (a @ b) \<longleftrightarrow> base_raised a \<or> base_raised b"
  by (induction a rule: base_raised.induct) auto

lemma won_append: "won path lg (a @ b) s \<longleftrightarrow> won path lg a s \<or> won path lg b s"
  by (auto simp: won_def)

lemma won_Nil [simp]: "\<not> won path lg [] s"
  by (simp add: won_def)

lemma won_Cons [simp]:
  "won path lg (Fetch s r # evs) s' \<longleftrightarrow>
     \<not> check_pdf s' \<and> s' = s \<and> r = Inr True \<or> won path lg evs s'"
  "won path lg (Check s pa l r # evs) s' \<longleftrightarrow>
     check_pdf s' \<and> s' = s \<and> pa = path \<and> l = lg \<and> r = Inr True \<or> won path lg evs s'"
  "won path lg (Scrape p pa i # evs) s' \<longleftrightarrow> won path lg evs s'"
  "won path lg (Debug m # evs) s' \<longleftrightarrow> won path lg evs s'"
  "won path lg (LogException m # evs) s' \<longleftrightarrow> won path lg evs s'"
  "won path lg (Callback t d u # evs) s' \<longleftrightarrow> won path lg evs s'"
  by (auto simp: won_def)

lemma trace_emit [simp]: "trace (emit e st) = trace st @ [e]"
  by (simp add: emit_def)

lemma world_emit [simp]: "world (emit e st) = world st"
  by (simp add: emit_def)

lemma trace_log [simp]:
  "trace (log_debug lg msg st) = trace st @ log_events lg (Debug msg)"
  "trace (log_exception lg msg st) = trace st @ log_events lg (LogException msg)"
  by (simp_all add: log_debug_def log_exception_def log_events_def split: option.splits)

lemma world_log [simp]:
  "world (log_debug lg msg st) = world st" "world (log_exception lg msg st) = world st"
  by (simp_all add: log_debug_def log_exception_def split: option.splits)

lemma log_events_silent [simp]:
  "fetched (log_events lg (Debug msg)) = []" "fetched (log_events lg (LogException msg)) = []"
  "scrapes (log_events lg (Debug msg)) = []" "scrapes (log_events lg (LogException msg)) = []"
  "reports (log_events lg (Debug msg)) = []" "reports (log_events lg (LogException msg)) = []"
  "\<not> base_raised (log_events lg (Debug msg))" "\<not> base_raised (log_events lg (LogException msg))"
  "\<not> reporter_raised (log_events lg (Debug msg))"
  "\<not> reporter_raised (log_events lg (LogException msg))"
  "\<not> won path lg' (log_events lg (Debug msg)) s" "\<not> won path lg' (log_events lg (LogException msg)) s"
  by (simp_all add: log_events_def won_def split: option.splits)

lemma success_path_Return:
  assumes "success_path self p lg s res st = (Return b, res', st')"
  shows "b \<and> res' = AList.update (name s) ''success'' res \<and>
         (\<exists>evs. trace st' = trace st @ evs \<and> fetched evs = [] \<and> scrapes evs = [] \<and>
            \<not> base_raised evs \<and> \<not> reporter_raised evs \<and> (\<forall>s'. \<not> won path lg evs s') \<and>
            reports evs = cbrep self p res')"
  using assms unfolding success_path_def cbrep_def Let_def
  by (auto simp: won_append split: option.splits prod.splits sum.splits)

lemma success_path_Raise:
  assumes "success_path self p lg s res st = (Raise e, res', st')"
  shows "res' = AList.update (name s) ''success'' res \<and>
         (\<exists>evs. trace st' = trace st @ evs \<and> fetched evs = [] \<and> scrapes evs = [] \<and>
            \<not> base_raised evs \<and> reporter_raised evs \<and> (\<forall>s'. \<not> won path lg evs s'))"
  using assms unfolding success_path_def cbrep_def Let_def
  by (auto simp: won_append split: option.splits prod.splits sum.splits)

lemma success_path_Normal: "success_path self p lg s res st \<noteq> (Normal, res', st')"
  unfolding success_path_def Let_def
  by (auto split: option.splits prod.splits sum.splits)

lemma try_block_cases [case_names fetch_raised falsy trusted check_raised refused approved]:
  fixes st :: "('s, 'w) exec"
  obtains
    e w where "call (function s) p path (kwargs s) (world st) = (Inl e, w)"
      "try_block self v p path lg s res st = (Raise e, res, emit (Fetch s (Inl e)) (st\<lparr>world := w\<rparr>))"
  | w where "call (function s) p path (kwargs s) (world st) = (Inr False, w)"
      "try_block self v p path lg s res st = (Normal, res, emit (Fetch s (Inr False)) (st\<lparr>world := w\<rparr>))"
  | w where "call (function s) p path (kwargs s) (world st) = (Inr True, w)" "\<not> check_pdf s"
      "try_block self v p path lg s res st =
         success_path self p lg s res (emit (Fetch s (Inr True)) (st\<lparr>world := w\<rparr>))"
  | w e w' where "call (function s) p path (kwargs s) (world st) = (Inr True, w)" "check_pdf s"
      "v path lg w = (Inl e, w')"
      "try_block self v p path lg s res st =
         (Raise e, res, emit (Check s path lg (Inl e))
                          ((emit (Fetch s (Inr True)) (st\<lparr>world := w\<rparr>))\<lparr>world := w'\<rparr>))"
  | w w' where "call (function s) p path (kwargs s) (world st) = (Inr True, w)" "check_pdf s"
      "v path lg w = (Inr False, w')"
      "try_block self v p path lg s res st =
         (Normal, res, emit (Check s path lg (Inr False))
                         ((emit (Fetch s (Inr True)) (st\<lparr>world := w\<rparr>))\<lparr>world := w'\<rparr>))"
  | w w' where "call (function s) p path (kwargs s) (world st) = (Inr True, w)" "check_pdf s"
      "v path lg w = (Inr True, w')"
      "try_block self v p path lg s res st =
         success_path self p lg s res
           (emit (Check s path lg (Inr True))
              ((emit (Fetch s (Inr True)) (st\<lparr>world := w\<rparr>))\<lparr>world := w'\<rparr>))"
proof (cases "call (function s) p path (kwargs s) (world st)")
  case (Pair r w)
  show ?thesis
  proof (cases r)
    case (Inl e)
    with Pair that(1) show ?thesis by (simp add: try_block_def)
  next
    case (Inr result)
    show ?thesis
    proof (cases result)
      case False
      with Pair Inr that(2) show ?thesis by (simp add: try_block_def)
    next
      case True
      show ?thesis
      proof (cases "check_pdf s")
        case False
        with Pair Inr True that(3) show ?thesis by (simp add: try_block_def)
      next
        case chk: True
        show ?thesis
        proof (cases "v path lg w")
          case (Pair r' w')
          show ?thesis
          proof (cases r')
            case (Inl e)
            with \<open>call (function s) p path (kwargs s) (world st) = (r, w)\<close> \<open>r = Inr result\<close> True chk Pair
              that(4)[of w e w']
            show ?thesis by (simp add: try_block_def)
          next
            case (Inr ok)
            with \<open>call (function s) p path (kwargs s) (world st) = (r, w)\<close> \<open>r = Inr result\<close> True chk Pair
              that(5)[of w w'] that(6)[of w w']
            show ?thesis by (cases ok) (simp_all add: try_block_def)
          qed
        qed
      qed
    qed
  qed
qed

lemma attempt_after_success_path:
  fixes st0 :: "('s, 'w) exec"
  assumes tb: "try_block self v p path lg s res st = success_path self p lg s res st0"
    and a: "attempt self v p path lg s res st = (fl, res', st')"
    and t0: "trace st0 = trace st @ pre" "fetched pre = [s]" "scrapes pre = []" "\<not> base_raised pre"
      "\<not> reporter_raised pre" "reports pre = []" "won path lg pre s" "\<forall>s'. s' \<noteq> s \<longrightarrow> \<not> won path lg pre s'"
      "\<exists>ys. pre = Fetch s (Inr True) # ys \<and> fetched ys = [] \<and> reports ys = []"
  shows "\<exists>evs. trace st' = trace st @ evs \<and> attempt_post self p path lg s res fl res' evs"
proof -
  obtain fl0 res0 st1 where sp: "success_path self p lg s res st0 = (fl0, res0, st1)"
    by (cases "success_path self p lg s res st0") auto
  show ?thesis
  proof (cases fl0)
    case Normal
    with sp show ?thesis by (simp add: success_path_Normal)
  next
    case (Return b)
    from success_path_Return[OF sp[unfolded Return], of path] obtain evs where e: "b"
      "res0 = AList.update (name s) ''success'' res" "trace st1 = trace st0 @ evs" "fetched evs = []"
      "scrapes evs = []" "\<not> base_raised evs" "\<not> reporter_raised evs" "\<forall>s'. \<not> won path lg evs s'"
      "reports evs = cbrep self p res0" by blast
    from a tb sp Return have r: "fl = Return b" "res' = res0" "st' = st1"
      by (simp_all add: attempt_def)
    from t0(9) obtain ys where ys: "pre = Fetch s (Inr True) # ys" "fetched ys = []" "reports ys = []"
      by blast
    have w1: "\<forall>s'. s' \<noteq> s \<longrightarrow> \<not> won path lg (pre @ evs) s'"
      using t0(8) e(8) by (simp add: won_append)
    have w2: "won path lg (pre @ evs) s"
      using t0(7) by (simp add: won_append)
    have ex: "\<exists>ys'. pre @ evs = Fetch s (Inr True) # ys' \<and> fetched ys' = [] \<and>
                reports ys' = cbrep self p res'"
      using ys e(4,9) r(2) by simp
    have "attempt_post self p path lg s res fl res' (pre @ evs)"
      unfolding attempt_post_def using r(1,2) e(1,2,4-7) t0(2-6) w1 w2 ex
      by simp
    with e(3) t0(1) r(3) show ?thesis by (intro exI[of _ "pre @ evs"]) simp
  next
    case (Raise x)
    from success_path_Raise[OF sp[unfolded Raise], of path] obtain evs where e:
      "res0 = AList.update (name s) ''success'' res" "trace st1 = trace st0 @ evs" "fetched evs = []"
      "scrapes evs = []" "\<not> base_raised evs" "reporter_raised evs" "\<forall>s'. \<not> won path lg evs s'"
      by blast
    show ?thesis
    proof (cases x)
      case (BaseException n)
      from a tb sp Raise BaseException have r: "fl = Raise (BaseException n)" "res' = res0" "st' = st1"
        by (simp_all add: attempt_def)
      have "attempt_post self p path lg s res fl res' (pre @ evs)"
        unfolding attempt_post_def using r e t0(2-8)
        by (simp add: won_append)
      with e(2) t0(1) r(3) show ?thesis by (intro exI[of _ "pre @ evs"]) simp
    next
      case (Exception n)
      from a tb sp Raise Exception have r: "fl = Normal"
        "res' = AList.update (name s) ''failed'' res0"
        "trace st' = trace st1 @
           log_events lg (LogException ([CHR 0x09] @ ''Scraper '' @ name s @ '' failed.''))"
        by (auto simp: attempt_def)
      define tl :: "('s, 'w) event list"
        where "tl = log_events lg (LogException ([CHR 0x09] @ ''Scraper '' @ name s @ '' failed.''))"
      have tl: "fetched tl = []" "scrapes tl = []" "\<not> base_raised tl" "\<forall>s'. \<not> won path lg tl s'"
        by (simp_all add: tl_def)
      have "attempt_post self p path lg s res fl res' (pre @ evs @ tl)"
        unfolding attempt_post_def using r(1,2) e t0(2-8) tl
        by (simp add: won_append)
      moreover have "trace st' = trace st @ pre @ evs @ tl"
        using r(3) e(2) t0(1) by (simp add: tl_def)
      ultimately show ?thesis by blast
    qed
  qed
qed

lemma attempt_shape:
  fixes st :: "('s, 'w) exec"
  assumes a: "attempt self v p path lg s res st = (fl, res', st')"
  shows "\<exists>evs. trace st' = trace st @ evs \<and> attempt_post self p path lg s res fl res' evs"
proof (cases rule: try_block_cases[of s p path st self v lg res])
  case (fetch_raised e w)
  show ?thesis
  proof (cases e)
    case (Exception n)
    define tl :: "('s, 'w) event list"
      where "tl = log_events lg (LogException ([CHR 0x09] @ ''Scraper '' @ name s @ '' failed.''))"
    have tl: "fetched tl = []" "scrapes tl = []" "\<not> base_raised tl" "\<forall>s'. \<not> won path lg tl s'"
       "reports tl = []"
      by (simp_all add: tl_def)
    from a fetch_raised(2) Exception have r: "fl = Normal"
        "res' = AList.update (name s) ''failed'' res"
        "trace st' = trace st @ [Fetch s (Inl e)] @ tl"
      by (auto simp: attempt_def tl_def)
    have "attempt_post self p path lg s res fl res' ([Fetch s (Inl e)] @ tl)"
      unfolding attempt_post_def using r(1,2) tl Exception by (simp add: won_append)
    with r(3) show ?thesis by blast
  next
    case (BaseException n)
    from a fetch_raised(2) BaseException have r: "fl = Raise e" "res' = res"
        "trace st' = trace st @ [Fetch s (Inl e)]"
      by (auto simp: attempt_def)
    have "attempt_post self p path lg s res fl res' [Fetch s (Inl e)]"
      unfolding attempt_post_def using r(1,2) BaseException by simp
    with r(3) show ?thesis by blast
  qed
next
  case (falsy w)
  from a falsy(2) have r: "fl = Normal" "res' = AList.update (name s) ''failed'' res"
        "trace st' = trace st @ [Fetch s (Inr False)]"
    by (auto simp: attempt_def)
  have "attempt_post self p path lg s res fl res' [Fetch s (Inr False)]"
    unfolding attempt_post_def using r(1,2) by simp
  with r(3) show ?thesis by blast
next
  case (trusted w)
  show ?thesis
    by (rule attempt_after_success_path[OF trusted(3) a, of "[Fetch s (Inr True)]"])
       (use trusted(2) in simp_all)
next
  case (check_raised w e w')
  show ?thesis
  proof (cases e)
    case (Exception n)
    define tl :: "('s, 'w) event list"
      where "tl = log_events lg (LogException ([CHR 0x09] @ ''Scraper '' @ name s @ '' failed.''))"
    have tl: "fetched tl = []" "scrapes tl = []" "\<not> base_raised tl" "\<forall>s'. \<not> won path lg tl s'"
       "reports tl = []"
      by (simp_all add: tl_def)
    from a check_raised(4) Exception have r: "fl = Normal"
        "res' = AList.update (name s) ''failed'' res"
        "trace st' = trace st @ [Fetch s (Inr True), Check s path lg (Inl e)] @ tl"
      by (auto simp: attempt_def tl_def)
    have "attempt_post self p path lg s res fl res' ([Fetch s (Inr True), Check s path lg (Inl e)] @ tl)"
      unfolding attempt_post_def using r(1,2) tl Exception check_raised(2) by (simp add: won_append)
    with r(3) show ?thesis by blast
  next
    case (BaseException n)
    from a check_raised(4) BaseException have r: "fl = Raise e" "res' = res"
        "trace st' = trace st @ [Fetch s (Inr True), Check s path lg (Inl e)]"
      by (auto simp: attempt_def)
    have "attempt_post self p path lg s res fl res' [Fetch s (Inr True), Check s path lg (Inl e)]"
      unfolding attempt_post_def using r(1,2) BaseException check_raised(2) by simp
    with r(3) show ?thesis by blast
  qed
next
  case (refused w w')
  from a refused(4) have r: "fl = Normal" "res' = AList.update (name s) ''failed'' res"
        "trace st' = trace st @ [Fetch s (Inr True), Check s path lg (Inr False)]"
    by (auto simp: attempt_def)
  have "attempt_post self p path lg s res fl res' [Fetch s (Inr True), Check s path lg (Inr False)]"
    unfolding attempt_post_def using r(1,2) refused(2) by simp
  with r(3) show ?thesis by blast
next
  case (approved w w')
  show ?thesis
    by (rule attempt_after_success_path[OF approved(4) a,
          of "[Fetch s (Inr True), Check s path lg (Inr True)]"])
       (use approved(2) in simp_all)
qed

lemma mark_failed_Nil [simp]: "mark_failed [] res = res"
  by (simp add: mark_failed_def)

lemma mark_failed_Cons [simp]:
  "mark_failed (s # xs) res = mark_failed xs (AList.update (name s) ''failed'' res)"
  by (simp add: mark_failed_def)

lemma mark_failed_append [simp]: "mark_failed (xs @ ys) res = mark_failed ys (mark_failed xs res)"
  by (simp add: mark_failed_def)

lemma quiet_append: "quiet path lg a \<Longrightarrow> quiet path lg b \<Longrightarrow> quiet path lg (a @ b)"
  by (auto simp: quiet_def won_append)

lemma quiet_Nil [simp]: "quiet path lg []"
  by (simp add: quiet_def)

lemma calm_append: "calm path lg a \<Longrightarrow> calm path lg b \<Longrightarrow> calm path lg (a @ b)"
  by (auto simp: calm_def won_append)

lemma calm_Nil [simp]: "calm path lg []"
  by (simp add: calm_def)

lemma quiet_calm: "quiet path lg evs \<Longrightarrow> calm path lg evs"
  by (auto simp: quiet_def calm_def)

lemma success_tail_prepend:
  assumes "success_tail self p path lg res' er" and "calm path lg ea"
  shows "success_tail self p path lg res' (ea @ er)"
proof -
  from assms(1) obtain xs s ys res0 where d: "er = xs @ Fetch s (Inr True) # ys" "fetched ys = []"
        "reports ys = cbrep self p res'" "res' = AList.update (name s) ''success'' res0"
        "calm path lg xs"
        "won path lg (Fetch s (Inr True) # ys) s"
        "\<forall>s'. s' \<noteq> s \<longrightarrow> \<not> won path lg (Fetch s (Inr True) # ys) s'"
        "\<not> reporter_raised ys"
    unfolding success_tail_def by blast
  have 1: "ea @ er = (ea @ xs) @ Fetch s (Inr True) # ys" using d(1) by simp
  have 2: "calm path lg (ea @ xs)"
    using assms(2) d(5) by (rule calm_append)
  show ?thesis
    unfolding success_tail_def
    apply (rule exI[of _ "ea @ xs"], rule exI[of _ s], rule exI[of _ ys], rule exI[of _ res0])
    using 1 2 d(2,3,4,6,7,8) by blast
qed

lemma success_tail_first:
  assumes "won path lg (Fetch s (Inr True) # ys) s" "\<not> reporter_raised ys"
      "\<forall>s'. s' \<noteq> s \<longrightarrow> \<not> won path lg (Fetch s (Inr True) # ys) s'"
      "fetched ys = []" "reports ys = cbrep self p (AList.update (name s) ''success'' res)"
  shows "success_tail self p path lg (AList.update (name s) ''success'' res) (Fetch s (Inr True) # ys)"
  unfolding success_tail_def
  apply (rule exI[of _ "[]"], rule exI[of _ s], rule exI[of _ ys], rule exI[of _ res])
  using assms by simp

lemma attempt_Normal_quiet:
  assumes "attempt_post self p path lg s res Normal res' evs"
  shows "quiet path lg evs"
proof -
  from assms have 1: "\<forall>s'. s' \<noteq> s \<longrightarrow> \<not> won path lg evs s'"
    and 2: "\<not> won path lg evs s \<and> reports evs = [] \<or> reporter_raised evs"
    unfolding attempt_post_def by blast+
  then show ?thesis unfolding quiet_def by metis
qed

lemma tier_shape:
  assumes "tier_loop self v p path i lg tier js res st = (fl, res', st')"
  shows "\<exists>evs. trace st' = trace st @ evs \<and>
           tier_post self p path lg (map (pick i tier) js) res fl res' evs"
  using assms
proof (induction js arbitrary: res st)
  case Nil
  then show ?case by (auto simp: tier_post_def)
next
  case (Cons j js)
  obtain fl1 res1 st1 where a: "attempt self v p path lg (pick i tier j) res st = (fl1, res1, st1)"
    by (cases "attempt self v p path lg (pick i tier j) res st") auto
  from attempt_shape[OF a] obtain ea where ea1: "trace st1 = trace st @ ea"
    and ap: "attempt_post self p path lg (pick i tier j) res fl1 res1 ea"
    by blast
  from ap have ea: "fetched ea = [pick i tier j]" "scrapes ea = []"
    "\<forall>s'. s' \<noteq> pick i tier j \<longrightarrow> \<not> won path lg ea s'"
    unfolding attempt_post_def by blast+
  show ?case
  proof (cases fl1)
    case Normal
    with a Cons.prems have r: "tier_loop self v p path i lg tier js res1 st1 = (fl, res', st')"
      by (simp add: pick_def)
    from Cons.IH[OF r] obtain er where er: "trace st' = trace st1 @ er"
      and tp: "tier_post self p path lg (map (pick i tier) js) res1 fl res' er" by blast
    from ap Normal have res1: "res1 = AList.update (name (pick i tier j)) ''failed'' res"
      and nb: "\<not> base_raised ea"
      unfolding attempt_post_def by blast+
    have q: "quiet path lg ea"
      using ap Normal attempt_Normal_quiet by blast
    from tp have t0: "scrapes er = []" "prefix (fetched er) (map (pick i tier) js)"
      unfolding tier_post_def by blast+
    have "tier_post self p path lg (map (pick i tier) (j # js)) res fl res' (ea @ er)"
    proof (cases fl)
      case Normal
      with tp have e: "fetched er = map (pick i tier) js"
        "res' = mark_failed (map (pick i tier) js) res1" "\<not> base_raised er" "quiet path lg er"
        unfolding tier_post_def by blast+
      show ?thesis
        unfolding tier_post_def using Normal e(1-3) t0 ea(1,2) res1 nb quiet_append[OF q e(4)]
        by simp
    next
      case (Return b)
      with tp have d: "b" "success_tail self p path lg res' er"
        unfolding tier_post_def by blast+
      show ?thesis
        unfolding tier_post_def using Return d(1) t0 ea(1,2) success_tail_prepend[OF d(2) quiet_calm[OF q]]
        by simp
    next
      case (Raise x)
      with tp have e: "\<exists>n. x = BaseException n"
        "(\<forall>s. \<not> won path lg er s) \<and> base_raised er \<and> reports er = [] \<or> reporter_raised er"
        unfolding tier_post_def by blast+
      have "(\<forall>s. \<not> won path lg (ea @ er) s) \<and> base_raised (ea @ er) \<and> reports (ea @ er) = []
             \<or> reporter_raised (ea @ er)"
        using q e(2) unfolding quiet_def by (auto simp: won_append)
      then show ?thesis
        unfolding tier_post_def using Raise e(1) t0 ea(1,2) by simp
    qed
    with ea1 er show ?thesis by (intro exI[of _ "ea @ er"]) simp
  next
    case (Return b)
    with a Cons.prems have r: "fl = Return b" "res' = res1" "st' = st1"
      by (simp_all add: pick_def)
    from ap Return have d0: "b" "won path lg ea (pick i tier j)" "\<not> reporter_raised ea"
      "res1 = AList.update (name (pick i tier j)) ''success'' res"
      "\<exists>ys. ea = Fetch (pick i tier j) (Inr True) # ys \<and> fetched ys = [] \<and>
         reports ys = cbrep self p res1"
      unfolding attempt_post_def by blast+
    from d0(5) obtain ys where d: "ea = Fetch (pick i tier j) (Inr True) # ys" "fetched ys = []"
      "reports ys = cbrep self p res1" by blast
    have "success_tail self p path lg (AList.update (name (pick i tier j)) ''success'' res)
            (Fetch (pick i tier j) (Inr True) # ys)"
    proof (rule success_tail_first)
      show "won path lg (Fetch (pick i tier j) (Inr True) # ys) (pick i tier j)"
        using d0(2) d(1) by simp
      show "\<not> reporter_raised ys" using d0(3) d(1) by simp
      show "\<forall>s'. s' \<noteq> pick i tier j \<longrightarrow> \<not> won path lg (Fetch (pick i tier j) (Inr True) # ys) s'"
        using ea(3) d(1) by simp
      show "fetched ys = []" by (rule d(2))
      show "reports ys = cbrep self p (AList.update (name (pick i tier j)) ''success'' res)"
        using d(3) d0(4) by simp
    qed
    then have "success_tail self p path lg res' ea"
      using d(1) d0(4) r(2) by simp
    then have "tier_post self p path lg (map (pick i tier) (j # js)) res fl res' ea"
      unfolding tier_post_def using r(1) d0(1) ea(1,2) by simp
    with ea1 r show ?thesis by (intro exI[of _ ea]) simp
  next
    case (Raise e)
    with a Cons.prems have r: "fl = Raise e" "res' = res1" "st' = st1"
      by (simp_all add: pick_def)
    from ap Raise have x: "\<exists>n. e = BaseException n"
      "\<not> won path lg ea (pick i tier j) \<and> base_raised ea \<and> reports ea = [] \<or> reporter_raised ea"
      unfolding attempt_post_def by blast+
    have "(\<forall>s. \<not> won path lg ea s) \<and> base_raised ea \<and> reports ea = [] \<or> reporter_raised ea"
      using x(2) ea(3) by metis
    then have "tier_post self p path lg (map (pick i tier) (j # js)) res fl res' ea"
      unfolding tier_post_def using r(1) x(1) ea(1,2) by simp
    with ea1 r show ?thesis by (intro exI[of _ ea]) simp
  qed
qed

lemma loop_shape:
  assumes "scrape_loop self v p path i lg tiers res st = (r, res', st')"
  shows "\<exists>evs. trace st' = trace st @ evs \<and> loop_post self p path lg i tiers res r res' evs"
  using assms
proof (induction tiers arbitrary: res st)
  case Nil
  then show ?case by (auto simp: loop_post_def)
next
  case (Cons tier tiers)
  obtain fl res1 st1 where t: "tier_loop self v p path i lg tier [0..<length tier] res st = (fl, res1, st1)"
    by (cases "tier_loop self v p path i lg tier [0..<length tier] res st") auto
  from tier_shape[OF t] obtain et where et: "trace st1 = trace st @ et"
    and tp0: "tier_post self p path lg (map (pick i tier) [0..<length tier]) res fl res1 et"
    by blast
  from tp0 have tp: "tier_post self p path lg (tier_order i tier) res fl res1 et"
    by (simp add: tier_order_def)
  from tp have t0: "scrapes et = []" "prefix (fetched et) (tier_order i tier)"
    unfolding tier_post_def by blast+
  have pre1: "prefix (fetched et) (concat (map (tier_order i) (tier # tiers)))"
    using t0(2) by simp
  show ?case
  proof (cases fl)
    case (Return b)
    with t Cons.prems have r: "r = Inr b" "res' = res1" "st' = st1" by simp_all
    from tp Return have "b" "success_tail self p path lg res1 et"
      unfolding tier_post_def by blast+
    then have "loop_post self p path lg i (tier # tiers) res r res' et"
      unfolding loop_post_def using r(1,2) t0(1) pre1 by simp
    with et r(3) show ?thesis by blast
  next
    case (Raise e)
    with t Cons.prems have r: "r = Inl e" "res' = res1" "st' = st1" by simp_all
    from tp Raise have "\<exists>n. e = BaseException n"
      "(\<forall>s. \<not> won path lg et s) \<and> base_raised et \<and> reports et = [] \<or> reporter_raised et"
      unfolding tier_post_def by blast+
    then have "loop_post self p path lg i (tier # tiers) res r res' et"
      unfolding loop_post_def using r(1,2) t0(1) pre1 by auto
    with et r(3) show ?thesis by blast
  next
    case Normal
    with tp have n: "fetched et = tier_order i tier" "res1 = mark_failed (tier_order i tier) res"
      "\<not> base_raised et" "quiet path lg et"
      unfolding tier_post_def by blast+
    have rep_et: "\<not> reporter_raised et \<Longrightarrow> reports et = []"
      using n(4) by (auto simp: quiet_def)
    \<comment> \<open>what the callback after the tier adds, and the state the next tiers start from\<close>
    have "\<exists>cbe st2. trace st2 = trace st1 @ cbe \<and> fetched cbe = [] \<and> scrapes cbe = [] \<and>
             \<not> base_raised cbe \<and> (\<forall>s. \<not> won path lg cbe s) \<and>
             ((\<exists>e. r = Inl e \<and> res' = res1 \<and> st' = st2 \<and> cbe = [Callback (title p) res1 (Inl e)]) \<or>
              (\<not> reporter_raised cbe \<and> reports cbe = cbrep self p res1 \<and>
               scrape_loop self v p path i lg tiers res1 st2 = (r, res', st')))"
    proof (cases "callback self")
      case None
      with t Normal Cons.prems
      have "scrape_loop self v p path i lg tiers res1 st1 = (r, res', st')" by simp
      with None show ?thesis
        by (intro exI[of _ "[]"] exI[of _ st1]) (simp add: cbrep_def)
    next
      case (Some cb)
      obtain u w where c: "cb (title p) res1 (world st1) = (u, w)"
        by (cases "cb (title p) res1 (world st1)") auto
      show ?thesis
      proof (cases u)
        case (Inl e)
        with t Normal Cons.prems Some c
        have "r = Inl e" "res' = res1"
          "st' = emit (Callback (title p) res1 (Inl e)) (st1\<lparr>world := w\<rparr>)" by auto
        then show ?thesis
          by (intro exI[of _ "[Callback (title p) res1 (Inl e)]"]
                exI[of _ "emit (Callback (title p) res1 (Inl e)) (st1\<lparr>world := w\<rparr>)"]) simp
      next
        case (Inr x)
        with t Normal Cons.prems Some c
        have "scrape_loop self v p path i lg tiers res1
                (emit (Callback (title p) res1 (Inr ())) (st1\<lparr>world := w\<rparr>)) = (r, res', st')"
          by simp
        with Some show ?thesis
          by (intro exI[of _ "[Callback (title p) res1 (Inr ())]"]
                exI[of _ "emit (Callback (title p) res1 (Inr ())) (st1\<lparr>world := w\<rparr>)"])
             (simp add: cbrep_def)
      qed
    qed
    then obtain cbe st2 where cb: "trace st2 = trace st1 @ cbe" "fetched cbe = []" "scrapes cbe = []"
      "\<not> base_raised cbe" "\<forall>s. \<not> won path lg cbe s"
      and alt: "(\<exists>e. r = Inl e \<and> res' = res1 \<and> st' = st2 \<and> cbe = [Callback (title p) res1 (Inl e)]) \<or>
              (\<not> reporter_raised cbe \<and> reports cbe = cbrep self p res1 \<and>
               scrape_loop self v p path i lg tiers res1 st2 = (r, res', st'))"
      by blast
    have calm1: "calm path lg (et @ cbe)"
      using quiet_calm[OF n(4)] cb(5) by (auto simp: calm_def won_append)
    from alt show ?thesis
    proof
      assume "\<exists>e. r = Inl e \<and> res' = res1 \<and> st' = st2 \<and> cbe = [Callback (title p) res1 (Inl e)]"
      then obtain e where e: "r = Inl e" "res' = res1" "st' = st2"
        "cbe = [Callback (title p) res1 (Inl e)]" by blast
      have "\<exists>pre t m. et @ cbe = pre @ [Callback t m (Inl e)]"
        using e(4) by blast
      moreover have "reporter_raised (et @ cbe)" using e(4) by simp
      moreover have "prefix (fetched (et @ cbe)) (concat (map (tier_order i) (tier # tiers)))"
        using pre1 cb(2) by simp
      ultimately have "loop_post self p path lg i (tier # tiers) res r res' (et @ cbe)"
        unfolding loop_post_def using e(1) t0(1) cb(3) by simp
      moreover have "trace st' = trace st @ et @ cbe" using e(3) cb(1) et by simp
      ultimately show ?thesis by blast
    next
      assume "\<not> reporter_raised cbe \<and> reports cbe = cbrep self p res1 \<and>
               scrape_loop self v p path i lg tiers res1 st2 = (r, res', st')"
      then have c2: "\<not> reporter_raised cbe" "reports cbe = cbrep self p res1"
        and rest: "scrape_loop self v p path i lg tiers res1 st2 = (r, res', st')" by blast+
      from Cons.IH[OF rest] obtain er where er: "trace st' = trace st2 @ er"
        and lp: "loop_post self p path lg i tiers res1 r res' er" by blast
      from lp have l0: "scrapes er = []" "prefix (fetched er) (concat (map (tier_order i) tiers))"
        unfolding loop_post_def by blast+
      have pre2: "prefix (fetched (et @ cbe @ er)) (concat (map (tier_order i) (tier # tiers)))"
        using l0(2) n(1) cb(2) by simp
      have sc: "scrapes (et @ cbe @ er) = []" using t0(1) cb(3) l0(1) by simp
      have "loop_post self p path lg i (tier # tiers) res r res' (et @ cbe @ er)"
      proof (cases r)
        case (Inl e)
        with lp have x: "(\<exists>n. e = BaseException n) \<or> (\<exists>pre t m. er = pre @ [Callback t m (Inl e)])"
          "(\<forall>s. \<not> won path lg er s) \<and> base_raised er \<or> reporter_raised er"
          unfolding loop_post_def by blast+
        have 1: "(\<exists>n. e = BaseException n) \<or> (\<exists>pre t m. et @ cbe @ er = pre @ [Callback t m (Inl e)])"
        proof -
          { fix pre t m assume "er = pre @ [Callback t m (Inl e)]"
            then have "et @ cbe @ er = (et @ cbe @ pre) @ [Callback t m (Inl e)]" by simp
            then have "\<exists>pre t m. et @ cbe @ er = pre @ [Callback t m (Inl e)]" by blast }
          with x(1) show ?thesis by blast
        qed
        have 2: "(\<forall>s. \<not> won path lg (et @ cbe @ er) s) \<and> base_raised (et @ cbe @ er) \<or>
                 reporter_raised (et @ cbe @ er)"
          using x(2) calm1 by (auto simp: calm_def won_append)
        show ?thesis unfolding loop_post_def using Inl 1 2 sc pre2 by simp
      next
        case (Inr b)
        show ?thesis
        proof (cases b)
          case True
          with lp Inr have "success_tail self p path lg res' er"
            unfolding loop_post_def by blast
          from success_tail_prepend[OF this calm1]
          show ?thesis unfolding loop_post_def using Inr True sc pre2 by simp
        next
          case False
          with lp Inr have f: "fetched er = concat (map (tier_order i) tiers)"
            "res' = mark_failed (concat (map (tier_order i) tiers)) res1" "\<not> base_raised er"
            "calm path lg er"
            "\<not> reporter_raised er \<longrightarrow> reports er = tier_reports self p i tiers res1"
            unfolding loop_post_def by blast+
          have 3: "calm path lg (et @ cbe @ er)"
            using calm_append[OF calm1 f(4)] by simp
          have 4: "\<not> reporter_raised (et @ cbe @ er) \<longrightarrow>
                   reports (et @ cbe @ er) = tier_reports self p i (tier # tiers) res"
            using rep_et c2 f(5) n(2) by simp
          show ?thesis unfolding loop_post_def
            using Inr False f(1-3) n(1-3) cb(2,4) 3 4 sc pre2 by simp
        qed
      qed
      moreover have "trace st' = trace st @ et @ cbe @ er" using er cb(1) et by simp
      ultimately show ?thesis by blast
    qed
  qed
qed

lemma checks_follow_append:
  "checks_follow a \<Longrightarrow> checks_follow b \<Longrightarrow> checks_follow (a @ b)"
  unfolding checks_follow_def set_append by blast

lemma checks_follow_none:
  "(\<And>s pa l c. Check s pa l c \<notin> set b) \<Longrightarrow> checks_follow b"
  by (simp add: checks_follow_def)

lemma checks_follow_basic [simp]:
  "checks_follow []" "checks_follow [Fetch s r]"
  "checks_follow [Fetch s (Inr True), Check s path lg c]"
  "checks_follow [Callback t m u]"
  by (simp_all add: checks_follow_def)

lemma checks_follow_Cons:
  "checks_follow evs \<Longrightarrow> checks_follow (Fetch s r # evs)"
  "checks_follow evs \<Longrightarrow> checks_follow (Fetch s (Inr True) # Check s pa l c # evs)"
  unfolding checks_follow_def by auto

lemma checks_follow_won:
  "checks_follow evs \<Longrightarrow> won path lg evs s \<Longrightarrow> delivered path lg evs s"
  by (auto simp: checks_follow_def won_def delivered_def split: if_splits)

lemma delivered_won: "delivered path lg evs s \<Longrightarrow> won path lg evs s"
  by (auto simp: won_def delivered_def)

lemma success_path_no_check:
  assumes "success_path self p lg s res st = (fl, res', st')" "trace st' = trace st @ evs"
  shows "Check s' pa l c \<notin> set evs"
  using assms unfolding success_path_def Let_def
  by (auto simp: log_events_def split: option.splits prod.splits sum.splits)

lemma attempt_checks:
  fixes st :: "('s, 'w) exec"
  assumes a: "attempt self v p path lg s res st = (fl, res', st')"
    and t: "trace st' = trace st @ evs"
  shows "checks_follow evs"
proof -
  define tl :: "('s, 'w) event list"
    where "tl = log_events lg (LogException ([CHR 0x09] @ ''Scraper '' @ name s @ '' failed.''))"
  have "\<And>s' pa l c. Check s' pa l c \<notin> set tl"
    by (auto simp: tl_def log_events_def split: option.splits)
  then have tl: "checks_follow tl" by (rule checks_follow_none)
  have sp: "checks_follow evs"
    if tb: "try_block self v p path lg s res st = success_path self p lg s res st0"
      and t0: "trace st0 = trace st @ pre" "checks_follow pre" for st0 pre
  proof -
    obtain fl0 res0 st1 where sp: "success_path self p lg s res st0 = (fl0, res0, st1)"
      by (cases "success_path self p lg s res st0") auto
    have "\<exists>e. trace st1 = trace st0 @ e"
      using sp unfolding success_path_def Let_def
      by (auto split: option.splits prod.splits sum.splits)
    then obtain e where e: "trace st1 = trace st0 @ e" by blast
    have "\<And>s' pa l c. Check s' pa l c \<notin> set e"
      using success_path_no_check[OF sp e] by blast
    then have ne: "checks_follow e" by (rule checks_follow_none)
    have "trace st' = trace st1 \<or> trace st' = trace st1 @ tl"
      using a tb sp by (auto simp: attempt_def tl_def split: flow.splits py_exception.splits)
    then have "evs = pre @ e \<or> evs = pre @ e @ tl"
      using t e t0(1) by auto
    then show ?thesis
      using t0(2) ne tl by (auto intro!: checks_follow_append)
  qed
  show ?thesis
  proof (cases rule: try_block_cases[of s p path st self v lg res])
    case (fetch_raised e w)
    with a have "trace st' = trace st @ [Fetch s (Inl e)] \<or>
                 trace st' = trace st @ [Fetch s (Inl e)] @ tl"
      by (auto simp: attempt_def tl_def split: py_exception.splits)
    with t have "evs = [Fetch s (Inl e)] \<or> evs = [Fetch s (Inl e)] @ tl" by auto
    then show ?thesis using tl by (auto intro!: checks_follow_Cons)
  next
    case (falsy w)
    with a t have "evs = [Fetch s (Inr False)]" by (auto simp: attempt_def)
    then show ?thesis by simp
  next
    case (trusted w)
    show ?thesis
      by (rule sp[OF trusted(3), of "[Fetch s (Inr True)]"]) simp_all
  next
    case (check_raised w e w')
    with a have "trace st' = trace st @ [Fetch s (Inr True), Check s path lg (Inl e)] \<or>
                 trace st' = trace st @ [Fetch s (Inr True), Check s path lg (Inl e)] @ tl"
      by (auto simp: attempt_def tl_def split: py_exception.splits)
    with t have "evs = [Fetch s (Inr True), Check s path lg (Inl e)] \<or>
                 evs = [Fetch s (Inr True), Check s path lg (Inl e)] @ tl" by auto
    then show ?thesis using tl by (auto intro!: checks_follow_Cons)
  next
    case (refused w w')
    with a t have "evs = [Fetch s (Inr True), Check s path lg (Inr False)]"
      by (auto simp: attempt_def)
    then show ?thesis by simp
  next
    case (approved w w')
    show ?thesis
      by (rule sp[OF approved(4), of "[Fetch s (Inr True), Check s path lg (Inr True)]"])
         simp_all
  qed
qed

lemma tier_checks:
  assumes "tier_loop self v p path i lg tier js res st = (fl, res', st')"
    and "trace st' = trace st @ evs"
  shows "checks_follow evs"
  using assms
proof (induction js arbitrary: res st evs)
  case Nil
  then show ?case by simp
next
  case (Cons j js)
  obtain fl1 res1 st1 where a: "attempt self v p path lg (pick i tier j) res st = (fl1, res1, st1)"
    by (cases "attempt self v p path lg (pick i tier j) res st") auto
  from attempt_shape[OF a] obtain ea where ea: "trace st1 = trace st @ ea" by blast
  have ca: "checks_follow ea" by (rule attempt_checks[OF a ea])
  show ?case
  proof (cases fl1)
    case Normal
    with a Cons.prems(1) have r: "tier_loop self v p path i lg tier js res1 st1 = (fl, res', st')"
      by (simp add: pick_def)
    from tier_shape[OF r] obtain er where er: "trace st' = trace st1 @ er" by blast
    have "evs = ea @ er" using Cons.prems(2) ea er by simp
    with ca Cons.IH[OF r er] show ?thesis by (simp add: checks_follow_append)
  next
    case (Return b)
    with a Cons.prems(1) have "st' = st1" by (simp add: pick_def)
    with Cons.prems(2) ea ca show ?thesis by simp
  next
    case (Raise e)
    with a Cons.prems(1) have "st' = st1" by (simp add: pick_def)
    with Cons.prems(2) ea ca show ?thesis by simp
  qed
qed

lemma loop_checks:
  assumes "scrape_loop self v p path i lg tiers res st = (r, res', st')"
    and "trace st' = trace st @ evs"
  shows "checks_follow evs"
  using assms
proof (induction tiers arbitrary: res st evs)
  case Nil
  then show ?case by simp
next
  case (Cons tier tiers)
  obtain fl res1 st1 where t: "tier_loop self v p path i lg tier [0..<length tier] res st = (fl, res1, st1)"
    by (cases "tier_loop self v p path i lg tier [0..<length tier] res st") auto
  from tier_shape[OF t] obtain et where et: "trace st1 = trace st @ et" by blast
  have ct: "checks_follow et" by (rule tier_checks[OF t et])
  show ?case
  proof (cases fl)
    case (Return b)
    with t Cons.prems(1) have "st' = st1" by simp
    with Cons.prems(2) et ct show ?thesis by simp
  next
    case (Raise e)
    with t Cons.prems(1) have "st' = st1" by simp
    with Cons.prems(2) et ct show ?thesis by simp
  next
    case Normal
    have "\<exists>cbe st2. trace st2 = trace st1 @ cbe \<and> checks_follow cbe \<and>
            (st' = st2 \<or> scrape_loop self v p path i lg tiers res1 st2 = (r, res', st'))"
    proof (cases "callback self")
      case None
      with t Normal Cons.prems(1)
      have "scrape_loop self v p path i lg tiers res1 st1 = (r, res', st')" by simp
      then show ?thesis
        by (intro exI[of _ "[]"] exI[of _ st1]) simp
    next
      case (Some cb)
      obtain u w where c: "cb (title p) res1 (world st1) = (u, w)"
        by (cases "cb (title p) res1 (world st1)") auto
      show ?thesis
      proof (cases u)
        case (Inl e)
        with t Normal Cons.prems(1) Some c
        have "st' = emit (Callback (title p) res1 (Inl e)) (st1\<lparr>world := w\<rparr>)" by auto
        then show ?thesis
          by (intro exI[of _ "[Callback (title p) res1 (Inl e)]"]
                exI[of _ "emit (Callback (title p) res1 (Inl e)) (st1\<lparr>world := w\<rparr>)"])
             simp
      next
        case (Inr x)
        with t Normal Cons.prems(1) Some c
        have "scrape_loop self v p path i lg tiers res1
                (emit (Callback (title p) res1 (Inr ())) (st1\<lparr>world := w\<rparr>)) = (r, res', st')"
          by simp
        then show ?thesis
          by (intro exI[of _ "[Callback (title p) res1 (Inr ())]"]
                exI[of _ "emit (Callback (title p) res1 (Inr ())) (st1\<lparr>world := w\<rparr>)"])
             simp
      qed
    qed
    then obtain cbe st2 where cb: "trace st2 = trace st1 @ cbe" "checks_follow cbe"
      and alt: "st' = st2 \<or> scrape_loop self v p path i lg tiers res1 st2 = (r, res', st')"
      by blast
    from alt show ?thesis
    proof
      assume "st' = st2"
      then have "evs = et @ cbe" using Cons.prems(2) et cb(1) by simp
      with ct cb(2) show ?thesis by (simp add: checks_follow_append)
    next
      assume rest: "scrape_loop self v p path i lg tiers res1 st2 = (r, res', st')"
      from loop_shape[OF rest] obtain er where er: "trace st' = trace st2 @ er" by blast
      have "evs = et @ cbe @ er" using Cons.prems(2) et cb(1) er by simp
      with ct cb(2) Cons.IH[OF rest er] show ?thesis by (simp add: checks_follow_append)
    qed
  qed
qed

lemma nat_pick_index:
  assumes "0 < n"
  shows "nat ((i + int j) mod int n) = (nat (i mod int n) + j) mod n"
proof -
  have "(i + int j) mod int n = (i mod int n + int j) mod int n"
    by (simp add: mod_add_left_eq)
  also have "\<dots> = int ((nat (i mod int n) + j) mod n)"
    using assms by (simp add: zmod_int)
  finally show ?thesis by simp
qed

lemma tier_order_rotate: "tier_order i tier = rotate (nat (i mod int (length tier))) tier"
proof (cases "tier = []")
  case True
  then show ?thesis by (simp add: tier_order_def)
next
  case False
  then have n: "0 < length tier" by simp
  show ?thesis
  proof (rule nth_equalityI)
    show "length (tier_order i tier) = length (rotate (nat (i mod int (length tier))) tier)"
      by (simp add: tier_order_def)
  next
    fix j assume "j < length (tier_order i tier)"
    then have j: "j < length tier" by (simp add: tier_order_def)
    then show "tier_order i tier ! j = rotate (nat (i mod int (length tier))) tier ! j"
      by (simp add: tier_order_def pick_def nth_rotate nat_pick_index[OF n])
  qed
qed

lemma set_tier_order [simp]: "set (tier_order i tier) = set tier"
  by (simp add: tier_order_rotate)

lemma set_visit_order [simp]: "set (visit_order i tiers) = set (concat tiers)"
  by (auto simp: visit_order_def)

lemma map_of_mark_failed:
  "map_of (mark_failed xs res) k =
     (if k \<in> name ` set xs then Some ''failed'' else map_of res k)"
  by (induction xs arbitrary: res) (auto simp: update_conv')

lemma tier_reports_snapshots:
  assumes "callback self = Some cb"
  shows "list_all2 (\<lambda>tier (t, m). t = title p \<and> (\<forall>s\<in>set tier. map_of m (name s) = Some ''failed''))
           tiers (tier_reports self p i tiers res)"
  using assms
  by (induction tiers arbitrary: res) (auto simp: cbrep_def map_of_mark_failed)

lemma scrape_shape:
  assumes "scrape self v p path i lg st = (r, res, st')" and "trace st' = trace st @ evs"
  shows "\<exists>el. evs = Scrape p path i # el \<and> checks_follow el \<and>
           loop_post self p path lg i (rev (sorted_scrapers self))
             (fold (\<lambda>s. AList.update (name s) ''none'') (scrapers self) []) r res el"
proof -
  let ?st0 = "emit (Scrape p path i) st"
  let ?res0 = "fold (\<lambda>s. AList.update (name s) ''none'') (scrapers self) []"
  from assms(1) have l: "scrape_loop self v p path i lg (rev (sorted_scrapers self)) ?res0 ?st0 = (r, res, st')"
    by (simp add: scrape_def)
  from loop_shape[OF l] obtain el where el: "trace st' = trace ?st0 @ el"
    and lp: "loop_post self p path lg i (rev (sorted_scrapers self)) ?res0 r res el" by blast
  have "checks_follow el" by (rule loop_checks[OF l el])
  moreover have "evs = Scrape p path i # el" using el assms(2) by simp
  ultimately show ?thesis using lp by blast
qed

lemma delivered_Scrape [simp]:
  "delivered path lg (Scrape p pa i # evs) s \<longleftrightarrow> delivered path lg evs s"
  by (auto simp: delivered_def)

lemma scrape_raises:
  assumes run: "scrape self v p path i lg st = (Inl x, res, st')"
    and evs: "trace st' = trace st @ evs"
  shows "(\<exists>m. x = BaseException m) \<or> (\<exists>pre t d. evs = pre @ [Callback t d (Inl x)])"
proof -
  from scrape_shape[OF run evs] obtain el where el: "evs = Scrape p path i # el"
    and lp: "loop_post self p path lg i (rev (sorted_scrapers self))
             (fold (\<lambda>s. AList.update (name s) ''none'') (scrapers self) []) (Inl x) res el"
    by blast
  from lp have "(\<exists>n. x = BaseException n) \<or> (\<exists>pre t m. el = pre @ [Callback t m (Inl x)])"
    unfolding loop_post_def by blast
  then show ?thesis
  proof
    assume "\<exists>n. x = BaseException n" then show ?thesis by blast
  next
    assume "\<exists>pre t m. el = pre @ [Callback t m (Inl x)]"
    then obtain pre t m where "el = pre @ [Callback t m (Inl x)]" by blast
    then have "evs = (Scrape p path i # pre) @ [Callback t m (Inl x)]" using el by simp
    then show ?thesis by blast
  qed
qed




lemma scrape_trace:
  assumes "scrape self v p path i lg st = (r, res, st')"
  shows "\<exists>evs. trace st' = trace st @ evs \<and> scrapes evs = [(p, path, i)]"
proof -
  from assms have l: "scrape_loop self v p path i lg (rev (sorted_scrapers self))
      (fold (\<lambda>s. AList.update (name s) ''none'') (scrapers self) [])
      (emit (Scrape p path i) st) = (r, res, st')"
    by (simp add: scrape_def)
  from loop_shape[OF l] obtain el where el: "trace st' = trace (emit (Scrape p path i) st) @ el"
    and lp: "loop_post self p path lg i (rev (sorted_scrapers self))
      (fold (\<lambda>s. AList.update (name s) ''none'') (scrapers self) []) r res el" by blast
  from lp have "scrapes el = []" unfolding loop_post_def by blast
  with el show ?thesis by (intro exI[of _ "Scrape p path i # el"]) simp
qed

lemma scrape_parse_trace:
  assumes "scrape_parse self v dir parser lg p i st = (r, st')"
  shows "\<exists>evs. trace st' = trace st @ evs \<and>
           scrapes evs = [(p, os_path_join dir (paperId p @ ''.pdf''), i)]"
proof -
  let ?path = "os_path_join dir (paperId p @ ''.pdf'')"
  obtain r0 res st0 where s: "scrape self v p ?path i lg st = (r0, res, st0)"
    by (cases "scrape self v p ?path i lg st") auto
  from scrape_trace[OF s] obtain evs where e: "trace st0 = trace st @ evs"
    "scrapes evs = [(p, ?path, i)]" by blast
  have "trace st' = trace st0"
    using assms s unfolding scrape_parse_def Let_def
    by (auto split: sum.splits prod.splits if_splits)
  with e show ?thesis by auto
qed

lemma gather_trace:
  assumes "gather (map (\<lambda>n. scrape_parse self v dir parser lg (papers ! n) (int n)) ns) st = (r, st')"
  shows "\<exists>evs k. trace st' = trace st @ evs \<and> k \<le> length ns \<and>
           scrapes evs = map (launched dir papers) (take k ns) \<and>
           (\<forall>rs. r = Inr rs \<longrightarrow> k = length ns \<and> length rs = length ns)"
  using assms
proof (induction ns arbitrary: st r st')
  case Nil
  then show ?case by auto
next
  case (Cons n ns)
  obtain r1 st1 where t: "scrape_parse self v dir parser lg (papers ! n) (int n) st = (r1, st1)"
    by (cases "scrape_parse self v dir parser lg (papers ! n) (int n) st") auto
  from scrape_parse_trace[OF t] obtain e1 where e1: "trace st1 = trace st @ e1"
    "scrapes e1 = [launched dir papers n]" by (auto simp: launched_def)
  show ?case
  proof (cases r1)
    case (Inl e)
    with t Cons.prems have "r = Inl e" "st' = st1" by simp_all
    with e1 show ?thesis
      by (intro exI[of _ e1] exI[of _ "Suc 0"]) simp
  next
    case (Inr x)
    obtain r2 st2 where g: "gather (map (\<lambda>n. scrape_parse self v dir parser lg (papers ! n) (int n)) ns) st1 = (r2, st2)"
      by (cases "gather (map (\<lambda>n. scrape_parse self v dir parser lg (papers ! n) (int n)) ns) st1") auto
    from Cons.IH[OF g] obtain e2 k where e2: "trace st2 = trace st1 @ e2" "k \<le> length ns"
      "scrapes e2 = map (launched dir papers) (take k ns)"
      "\<forall>rs. r2 = Inr rs \<longrightarrow> k = length ns \<and> length rs = length ns" by blast
    have st: "st' = st2" and rr: "r = (case r2 of Inl e \<Rightarrow> Inl e | Inr rs \<Rightarrow> Inr (x # rs))"
      using t Inr g Cons.prems by (auto split: sum.splits)
    have "\<forall>rs. r = Inr rs \<longrightarrow> Suc k = length (n # ns) \<and> length rs = length (n # ns)"
      using rr e2(4) by (auto split: sum.splits)
    with e1 e2 st show ?thesis
      by (intro exI[of _ "e1 @ e2"] exI[of _ "Suc k"]) simp
  qed
qed

lemma length_update_le: "length (AList.update k v al) \<le> Suc (length al)"
  by (induction al) auto

lemma length_fold_update_le:
  "length (fold (\<lambda>(k, v). AList.update k v) kvs al) \<le> length al + length kvs"
proof (induction kvs arbitrary: al)
  case Nil
  show ?case by simp
next
  case (Cons kv kvs)
  obtain k v where kv: "kv = (k, v)" by (cases kv)
  have "length (fold (\<lambda>(k, v). AList.update k v) kvs (AList.update k v al))
          \<le> length (AList.update k v al) + length kvs" by (rule Cons.IH)
  also have "\<dots> \<le> Suc (length al) + length kvs"
    using length_update_le[of k v al] by simp
  finally show ?case by (simp add: kv)
qed

lemma length_dict_ior_le:
  "length (dict_ior aggregated (dict_of rs)) \<le> length aggregated + length rs"
proof -
  have "length (dict_of rs) \<le> length (List.map_filter (\<lambda>r. r) rs)"
    unfolding dict_of_def using length_fold_update_le[of "List.map_filter (\<lambda>r. r) rs" "[]"] by simp
  also have "\<dots> \<le> length rs"
    by (simp add: map_filter_def)
  finally have "length (dict_of rs) \<le> length rs" .
  then show ?thesis
    unfolding dict_ior_def using length_fold_update_le[of "dict_of rs" aggregated] by simp
qed

lemma length_dict_ior_ge: "length aggregated \<le> length (dict_ior aggregated d)"
proof -
  have u: "length al \<le> length (AList.update k v al)" for k v and al :: "(string \<times> paper) list"
    by (induction al) auto
  have "length al \<le> length (fold (\<lambda>(k, v). AList.update k v) kvs al)"
    for kvs and al :: "(string \<times> paper) list"
  proof (induction kvs arbitrary: al)
    case Nil show ?case by simp
  next
    case (Cons kv kvs)
    obtain k v where kv: "kv = (k, v)" by (cases kv)
    have "length al \<le> length (AList.update k v al)" by (rule u)
    also have "\<dots> \<le> length (fold (\<lambda>(k, v). AList.update k v) kvs (AList.update k v al))"
      by (rule Cons.IH)
    finally show ?case by (simp add: kv)
  qed
  then show ?thesis by (simp add: dict_ior_def)
qed

lemma window_tasks:
  "map (\<lambda>(j, p). f p (int i0 + int j)) (enumerate 0 (slice papers (int i0) (int i0 + int b)))
   = map (\<lambda>n. f (papers ! n) (int n)) [i0..<min (i0 + b) (length papers)]"
proof (rule nth_equalityI)
  show "length (map (\<lambda>(j, p). f p (int i0 + int j)) (enumerate 0 (slice papers (int i0) (int i0 + int b))))
      = length (map (\<lambda>n. f (papers ! n) (int n)) [i0..<min (i0 + b) (length papers)])"
    by (auto simp: slice_def nat_add_distrib)
next
  fix j assume "j < length (map (\<lambda>(j, p). f p (int i0 + int j)) (enumerate 0 (slice papers (int i0) (int i0 + int b))))"
  then have j: "j < b" "j < length papers - i0"
    by (auto simp: slice_def nat_add_distrib)
  then have "i0 + j < min (i0 + b) (length papers)" by auto
  then have "[i0..<min (i0 + b) (length papers)] ! j = i0 + j" by (rule nth_upt)
  with j show "map (\<lambda>(j, p). f p (int i0 + int j)) (enumerate 0 (slice papers (int i0) (int i0 + int b))) ! j
      = map (\<lambda>n. f (papers ! n) (int n)) [i0..<min (i0 + b) (length papers)] ! j"
    by (simp add: slice_def nat_add_distrib nth_enumerate_eq)
qed

lemma batch_loop_step:
  fixes st :: "('s, 'w) exec"
  assumes run: "batch_loop self v papers dir parser (int b) limit lg (int i0 # is) agg st = (r, st')"
  defines "hi \<equiv> min (i0 + b) (length papers)"
  shows "\<exists>e1 k1. k1 \<le> hi - i0 \<and> scrapes e1 = map (launched dir papers) (take k1 [i0..<hi]) \<and>
           ((\<exists>e. r = Inl e \<and> trace st' = trace st @ e1) \<or>
            (\<exists>rs st1. k1 = hi - i0 \<and> trace st1 = trace st @ e1 \<and> length rs = hi - i0 \<and>
               (if reached limit (dict_ior agg (dict_of rs))
                then r = Inr (dict_ior agg (dict_of rs)) \<and> st' = st1
                else batch_loop self v papers dir parser (int b) limit lg is
                       (dict_ior agg (dict_of rs)) st1 = (r, st'))))"
proof -
  let ?tasks = "map (\<lambda>n. scrape_parse self v dir parser lg (papers ! n) (int n)) [i0..<hi]"
  have w: "map (\<lambda>(j, p). scrape_parse self v dir parser lg p (int i0 + int j))
             (enumerate 0 (slice papers (int i0) (int i0 + int b))) = ?tasks"
    unfolding hi_def by (rule window_tasks)
  obtain g st1 where g: "gather ?tasks st = (g, st1)"
    by (cases "gather ?tasks st") auto
  from gather_trace[OF g] obtain e1 k1 where e: "trace st1 = trace st @ e1" "k1 \<le> length [i0..<hi]"
    "scrapes e1 = map (launched dir papers) (take k1 [i0..<hi])"
    "\<forall>rs. g = Inr rs \<longrightarrow> k1 = length [i0..<hi] \<and> length rs = length [i0..<hi]" by blast
  show ?thesis
  proof (cases g)
    case (Inl x)
    with run w g have "r = Inl x" "st' = st1" by simp_all
    with e show ?thesis by (intro exI[of _ e1] exI[of _ k1]) simp
  next
    case (Inr rs)
    with e(4) have k: "k1 = hi - i0" "length rs = hi - i0" by simp_all
    have c: "if reached limit (dict_ior agg (dict_of rs))
          then r = Inr (dict_ior agg (dict_of rs)) \<and> st' = st1
          else batch_loop self v papers dir parser (int b) limit lg is
                 (dict_ior agg (dict_of rs)) st1 = (r, st')"
      using run w g Inr by (auto simp: reached_def Let_def)
    have "k1 = hi - i0 \<and> trace st1 = trace st @ e1 \<and> length rs = hi - i0 \<and>
               (if reached limit (dict_ior agg (dict_of rs))
                then r = Inr (dict_ior agg (dict_of rs)) \<and> st' = st1
                else batch_loop self v papers dir parser (int b) limit lg is
                       (dict_ior agg (dict_of rs)) st1 = (r, st'))"
      using k e(1) c by blast
    then have "\<exists>rs st1. k1 = hi - i0 \<and> trace st1 = trace st @ e1 \<and> length rs = hi - i0 \<and>
               (if reached limit (dict_ior agg (dict_of rs))
                then r = Inr (dict_ior agg (dict_of rs)) \<and> st' = st1
                else batch_loop self v papers dir parser (int b) limit lg is
                       (dict_ior agg (dict_of rs)) st1 = (r, st'))"
      by blast
    with e(2,3) show ?thesis by blast
  qed
qed

lemma batch_loop_inv:
  fixes st :: "('s, 'w) exec"
  assumes "batch_loop self v papers dir parser (int b) limit lg
             (map (\<lambda>k. int k * int b) [m0..<M]) agg st = (r, st')"
    and "0 < b" and "m0 \<le> M" and "\<forall>m<M. m * b < length papers" and "length papers \<le> M * b"
    and "length agg \<le> min (m0 * b) (length papers)"
  shows "\<exists>evs k. trace st' = trace st @ evs \<and> min (m0 * b) (length papers) \<le> k \<and>
           k \<le> length papers \<and>
           scrapes evs = map (launched dir papers) [min (m0 * b) (length papers)..<k] \<and>
           (\<forall>result. r = Inr result \<longrightarrow>
              length result \<le> k \<and> (k = length papers \<or> b dvd k) \<and>
              (k < length papers \<longrightarrow> reached limit result))"
  using assms
proof (induction "M - m0" arbitrary: m0 agg st)
  case 0
  then have "m0 = M" by simp
  with 0 have r: "r = Inr agg" "st' = st" and k: "min (m0 * b) (length papers) = length papers"
    by auto
  show ?case
    by (intro exI[of _ "[]"] exI[of _ "length papers"]) (use r k "0.prems"(6) in auto)
next
  case (Suc d)
  let ?n = "length papers"
  let ?i0 = "m0 * b"
  let ?hi = "min (?i0 + b) ?n"
  from Suc.hyps(2) have lt: "m0 < M" by simp
  with Suc.prems(4) have i0: "?i0 < ?n" by simp
  then have k0: "min ?i0 ?n = ?i0" by simp
  have hi: "?hi = min (Suc m0 * b) ?n" by (simp add: add.commute)
  have ihi: "?i0 < ?hi" using i0 Suc.prems(2) by simp
  have upt: "[m0..<M] = m0 # [Suc m0..<M]" using lt by (rule upt_conv_Cons)
  have run: "batch_loop self v papers dir parser (int b) limit lg
       (int ?i0 # map (\<lambda>k. int k * int b) [Suc m0..<M]) agg st = (r, st')"
    using Suc.prems(1) upt by simp
  from batch_loop_step[OF run] obtain e1 k1 where k1: "k1 \<le> ?hi - ?i0"
    and s1: "scrapes e1 = map (launched dir papers) (take k1 [?i0..<?hi])"
    and alt: "(\<exists>e. r = Inl e \<and> trace st' = trace st @ e1) \<or>
            (\<exists>rs st1. k1 = ?hi - ?i0 \<and> trace st1 = trace st @ e1 \<and> length rs = ?hi - ?i0 \<and>
               (if reached limit (dict_ior agg (dict_of rs))
                then r = Inr (dict_ior agg (dict_of rs)) \<and> st' = st1
                else batch_loop self v papers dir parser (int b) limit lg
                       (map (\<lambda>k. int k * int b) [Suc m0..<M])
                       (dict_ior agg (dict_of rs)) st1 = (r, st')))"
    by blast
  have ik: "?i0 + k1 \<le> ?hi" using k1 ihi by linarith
  then have tk: "take k1 [?i0..<?hi] = [?i0..<?i0 + k1]"
    by (rule take_upt)
  from alt show ?case
  proof
    assume "\<exists>e. r = Inl e \<and> trace st' = trace st @ e1"
    then obtain e where e: "r = Inl e" "trace st' = trace st @ e1" by blast
    have "?i0 + k1 \<le> ?n" using ik by simp
    with e s1 tk k0 show ?thesis
      by (intro exI[of _ e1] exI[of _ "?i0 + k1"]) simp
  next
    assume "\<exists>rs st1. k1 = ?hi - ?i0 \<and> trace st1 = trace st @ e1 \<and> length rs = ?hi - ?i0 \<and>
               (if reached limit (dict_ior agg (dict_of rs))
                then r = Inr (dict_ior agg (dict_of rs)) \<and> st' = st1
                else batch_loop self v papers dir parser (int b) limit lg
                       (map (\<lambda>k. int k * int b) [Suc m0..<M])
                       (dict_ior agg (dict_of rs)) st1 = (r, st'))"
    then obtain rs st1 where w: "k1 = ?hi - ?i0" "trace st1 = trace st @ e1"
      "length rs = ?hi - ?i0"
      and c: "if reached limit (dict_ior agg (dict_of rs))
                then r = Inr (dict_ior agg (dict_of rs)) \<and> st' = st1
                else batch_loop self v papers dir parser (int b) limit lg
                       (map (\<lambda>k. int k * int b) [Suc m0..<M])
                       (dict_ior agg (dict_of rs)) st1 = (r, st')"
      by blast
    let ?agg = "dict_ior agg (dict_of rs)"
    have s1': "scrapes e1 = map (launched dir papers) [?i0..<?hi]"
      using s1 tk w(1) ihi by simp
    have la: "length ?agg \<le> ?hi"
    proof -
      have a1: "length ?agg \<le> length agg + length rs" by (rule length_dict_ior_le)
      have a2: "length agg \<le> ?i0" using Suc.prems(6) k0 by simp
      from a1 a2 w(3) ihi show ?thesis by linarith
    qed
    have dv: "?hi = ?n \<or> b dvd ?hi"
    proof (cases "?i0 + b \<le> ?n")
      case True
      then have "?hi = Suc m0 * b" by (simp add: add.commute)
      then show ?thesis by simp
    next
      case False
      then show ?thesis by simp
    qed
    show ?thesis
    proof (cases "reached limit ?agg")
      case True
      with c have r: "r = Inr ?agg" "st' = st1" by simp_all
      have "\<forall>result. r = Inr result \<longrightarrow>
              length result \<le> ?hi \<and> (?hi = ?n \<or> b dvd ?hi) \<and> (?hi < ?n \<longrightarrow> reached limit result)"
        using r(1) la dv True by blast
      moreover have "trace st' = trace st @ e1" using r(2) w(2) by simp
      moreover have "min ?i0 ?n \<le> ?hi" "?hi \<le> ?n" using ihi k0 by simp_all
      moreover have "scrapes e1 = map (launched dir papers) [min ?i0 ?n..<?hi]"
        using s1' k0 by simp
      ultimately show ?thesis by blast
    next
      case False
      with c have rest: "batch_loop self v papers dir parser (int b) limit lg
                       (map (\<lambda>k. int k * int b) [Suc m0..<M]) ?agg st1 = (r, st')" by simp
      have d: "d = M - Suc m0" using Suc.hyps(2) by simp
      have la': "length ?agg \<le> min (Suc m0 * b) ?n" using la hi by simp
      from Suc.hyps(1)[OF d rest Suc.prems(2) _ Suc.prems(4) Suc.prems(5) la'] lt
      obtain e2 k where e2: "trace st' = trace st1 @ e2" "min (Suc m0 * b) ?n \<le> k" "k \<le> ?n"
        "scrapes e2 = map (launched dir papers) [min (Suc m0 * b) ?n..<k]"
        "\<forall>result. r = Inr result \<longrightarrow>
              length result \<le> k \<and> (k = ?n \<or> b dvd k) \<and> (k < ?n \<longrightarrow> reached limit result)"
        by auto
      have hk: "?hi \<le> k" using e2(2) hi by simp
      have "[?i0..<?hi + (k - ?hi)] = [?i0..<?hi] @ [?hi..<?hi + (k - ?hi)]"
        using ihi by (intro upt_add_eq_append) simp
      then have "[?i0..<k] = [?i0..<?hi] @ [?hi..<k]"
        using hk by simp
      then have "scrapes (e1 @ e2) = map (launched dir papers) [min ?i0 ?n..<k]"
        using s1' e2(4) hi k0 by simp
      moreover have "trace st' = trace st @ e1 @ e2" using e2(1) w(2) by simp
      moreover have "min ?i0 ?n \<le> k" using hk ihi k0 by linarith
      ultimately show ?thesis using e2(3,5) by blast
    qed
  qed
qed

lemma windows_cover:
  assumes "0 < b"
  shows "n \<le> windows n b * b" and "\<forall>m<windows n b. m * b < n"
proof -
  let ?M = "windows n b"
  have e: "n + b - 1 = ?M * b + (n + b - 1) mod b"
    unfolding windows_def by simp
  have r: "(n + b - 1) mod b < b" using assms by simp
  from e r assms show "n \<le> ?M * b" by linarith
  show "\<forall>m<?M. m * b < n"
  proof (intro allI impI)
    fix m assume "m < ?M"
    then have "Suc m \<le> ?M" by simp
    then have "Suc m * b \<le> ?M * b" by (rule mult_le_mono1)
    then have "m * b + b \<le> ?M * b" by simp
    with e assms show "m * b < n" by linarith
  qed
qed

lemma py_range_positive:
  assumes "0 < b"
  shows "py_range 0 (int n) (int b) = Inr (map (\<lambda>k. int k * int b) [0..<windows n b])"
proof -
  have "(int n + int b - 1) div int b = int ((n + b - 1) div b)"
    using assms by (simp add: zdiv_int of_nat_diff)
  then show ?thesis using assms by (simp add: py_range_def windows_def)
qed

lemma py_range_negative:
  assumes "bs < 0"
  shows "py_range 0 (int n) bs = Inr []"
proof -
  have "- int n - bs - 1 < - bs" by simp
  moreover have "0 < - bs" using assms by simp
  ultimately have "(- int n - bs - 1) div (- bs) \<le> (- bs - 1) div (- bs)"
    by (intro zdiv_mono1) simp_all
  also have "(- bs - 1) div (- bs) = 0"
    using assms by (intro div_pos_pos_trivial) simp_all
  finally have "(- int n - bs - 1) div (- bs) \<le> 0" .
  then show ?thesis using assms by (simp add: py_range_def)
qed

lemma batch_scrape_prefix:
  assumes run: "batch_scrape self v papers dir paper_parser batch_size limit lg st = (r, st')"
    and evs: "trace st' = trace st @ evs"
  shows "\<exists>k\<le>length papers.
           scrapes evs = map (launched dir papers) [0..<k] \<and>
           (\<forall>result. r = Inr result \<longrightarrow>
              length result \<le> k \<and>
              (k = length papers \<or> default 10 batch_size dvd int k) \<and>
              (k < length papers \<and> 0 < default 10 batch_size \<longrightarrow> reached limit result))"
proof -
  let ?bs = "default 10 batch_size"
  let ?parser = "case paper_parser of None \<Rightarrow> (\<lambda>p w. (Inr p, w)) | Some f \<Rightarrow> f"
  consider (zero) "?bs = 0" | (neg) "?bs < 0" | (pos) "0 < ?bs" by linarith
  then show ?thesis
  proof cases
    case zero
    with run have "r = Inl (Exception ''ValueError'')" "st' = st"
      by (simp_all add: batch_scrape_def py_range_def Let_def)
    with evs show ?thesis by (intro exI[of _ 0]) simp
  next
    case neg
    with run have "r = Inr []" "st' = st"
      by (simp_all add: batch_scrape_def py_range_negative Let_def)
    with evs neg show ?thesis by (intro exI[of _ 0]) simp
  next
    case pos
    define b where "b = nat ?bs"
    have b: "0 < b" "?bs = int b" using pos by (simp_all add: b_def)
    let ?M = "windows (length papers) b"
    have l: "batch_loop self v papers dir ?parser (int b) limit lg
               (map (\<lambda>k. int k * int b) [0..<?M]) [] st = (r, st')"
      using run b py_range_positive[OF b(1), of "length papers"]
      by (simp add: batch_scrape_def Let_def)
    have "\<exists>e k. trace st' = trace st @ e \<and> min (0 * b) (length papers) \<le> k \<and>
           k \<le> length papers \<and>
           scrapes e = map (launched dir papers) [min (0 * b) (length papers)..<k] \<and>
           (\<forall>result. r = Inr result \<longrightarrow>
              length result \<le> k \<and> (k = length papers \<or> b dvd k) \<and>
              (k < length papers \<longrightarrow> reached limit result))"
      by (rule batch_loop_inv[OF l b(1) _ windows_cover(2)[OF b(1)] windows_cover(1)[OF b(1)]])
         simp_all
    then obtain e k where e: "trace st' = trace st @ e" "k \<le> length papers"
      "scrapes e = map (launched dir papers) [min (0 * b) (length papers)..<k]"
      and res: "\<forall>result. r = Inr result \<longrightarrow>
              length result \<le> k \<and> (k = length papers \<or> b dvd k) \<and>
              (k < length papers \<longrightarrow> reached limit result)"
      by blast
    have 1: "scrapes evs = map (launched dir papers) [0..<k]"
      using e(1,3) evs by simp
    have 2: "\<forall>result. r = Inr result \<longrightarrow>
              length result \<le> k \<and>
              (k = length papers \<or> ?bs dvd int k) \<and>
              (k < length papers \<and> 0 < ?bs \<longrightarrow> reached limit result)"
    proof (intro allI impI)
      fix result assume "r = Inr result"
      with res have x: "length result \<le> k" "k = length papers \<or> b dvd k"
        "k < length papers \<longrightarrow> reached limit result" by blast+
      have "b dvd k \<longrightarrow> ?bs dvd int k" unfolding b(2) by simp
      with x show "length result \<le> k \<and>
              (k = length papers \<or> ?bs dvd int k) \<and>
              (k < length papers \<and> 0 < ?bs \<longrightarrow> reached limit result)" by blast
    qed
    from e(2) 1 2 show ?thesis by blast
  qed
qed

lemma slice_take:
  assumes "nat b' \<le> c"
  shows "slice (take c xs) a b' = slice xs a b'"
proof -
  have "take (nat b' - nat a) (take (c - nat a) (drop (nat a) xs))
        = take (nat b' - nat a) (drop (nat a) xs)"
    using assms by (simp add: min_def)
  then show ?thesis by (simp add: slice_def drop_take)
qed

lemma batch_loop_take:
  assumes "\<forall>i\<in>set is. nat (i + bs) \<le> c"
  shows "batch_loop self v (take c papers) dir parser bs limit lg is agg st =
         batch_loop self v papers dir parser bs limit lg is agg st"
  using assms
proof (induction "is" arbitrary: agg st)
  case Nil
  show ?case by simp
next
  case (Cons i "is")
  then have s: "slice (take c papers) i (i + bs) = slice papers i (i + bs)"
    and ih: "\<And>agg st. batch_loop self v (take c papers) dir parser bs limit lg is agg st =
         batch_loop self v papers dir parser bs limit lg is agg st"
    by (simp_all add: slice_take)
  show ?case
    by (simp add: s ih Let_def split: prod.splits sum.splits)
qed

lemma batch_loop_append:
  "batch_loop self v papers dir parser bs limit lg (is1 @ is2) agg st =
     (case batch_loop self v papers dir parser bs limit lg is1 agg st of
        (Inl e, s) \<Rightarrow> (Inl e, s)
      | (Inr a, s) \<Rightarrow>
          if is1 \<noteq> [] \<and> reached limit a then (Inr a, s)
          else batch_loop self v papers dir parser bs limit lg is2 a s)"
proof (induction is1 arbitrary: agg st)
  case Nil
  show ?case by simp
next
  case (Cons i is1)
  show ?case
  proof (cases "is1 = []")
    case True
    then show ?thesis
      by (simp add: Let_def reached_def split: prod.splits sum.splits option.splits)
  next
    case False
    then show ?thesis
      by (simp add: Cons.IH Let_def reached_def split: prod.splits sum.splits option.splits)
  qed
qed

lemma windows_exact: "0 < b \<Longrightarrow> windows (m * b) b = m"
proof -
  assume b: "0 < b"
  have "(m * b + b - 1) div b = (m * b + (b - 1)) div b" using b by simp
  also have "\<dots> = m + (b - 1) div b" using b by (intro div_mult_self3) simp
  also have "(b - 1) div b = 0" using b by simp
  finally show ?thesis by (simp add: windows_def)
qed

lemma batch_scrape_stops:
  assumes pos: "0 < default 10 batch_size" and m: "0 < m"
    and pre: "batch_scrape self v (take (m * nat (default 10 batch_size)) papers) dir
                paper_parser batch_size limit lg st = (Inr agg, st1)"
    and lim: "reached limit agg"
  shows "batch_scrape self v papers dir paper_parser batch_size limit lg st = (Inr agg, st1)"
proof (cases "length papers \<le> m * nat (default 10 batch_size)")
  case True
  with pre show ?thesis by simp
next
  case False
  define b where "b = nat (default 10 batch_size)"
  have b: "0 < b" "default 10 batch_size = int b" using pos by (simp_all add: b_def)
  let ?parser = "case paper_parser of None \<Rightarrow> (\<lambda>p w. (Inr p, w)) | Some f \<Rightarrow> f"
  let ?n = "length papers"
  let ?M = "windows ?n b"
  let ?f = "\<lambda>k. int k * int b"
  from False have c: "m * b < ?n" by (simp add: b_def)
  then have len: "length (take (m * b) papers) = m * b" by simp
  have "m * b < ?M * b" using c windows_cover(1)[OF b(1), of ?n] by linarith
  then have mM: "m \<le> ?M" by simp
  have "[0..<m + (?M - m)] = [0..<m] @ [m..<m + (?M - m)]"
    by (intro upt_add_eq_append) simp
  then have "[0..<?M] = [0..<m] @ [m..<?M]" using mM by simp
  then have split: "map ?f [0..<?M] = map ?f [0..<m] @ map ?f [m..<?M]"
    by (metis map_append)
  have pre': "batch_scrape self v (take (m * b) papers) dir paper_parser batch_size limit lg st
               = (Inr agg, st1)"
    using pre by (simp add: b_def)
  have rg: "py_range 0 (int (length (take (m * b) papers))) (int b) = Inr (map ?f [0..<m])"
    using py_range_positive[OF b(1), of "m * b"] windows_exact[OF b(1), of m] len by simp
  have p1: "batch_loop self v (take (m * b) papers) dir ?parser (int b) limit lg
              (map ?f [0..<m]) [] st = (Inr agg, st1)"
    using pre' unfolding batch_scrape_def Let_def b(2) rg by simp
  have "\<forall>i\<in>set (map ?f [0..<m]). nat (i + int b) \<le> m * b"
  proof
    fix i assume "i \<in> set (map ?f [0..<m])"
    then obtain k where k: "k < m" "i = int k * int b" by auto
    then have "Suc k * b \<le> m * b" by (intro mult_le_mono1) simp
    moreover have "nat (i + int b) = Suc k * b"
      using k(2) by (simp add: nat_add_distrib nat_mult_distrib)
    ultimately show "nat (i + int b) \<le> m * b" by simp
  qed
  note tk = batch_loop_take[OF this, of self v papers dir ?parser limit lg "[]" st]
  have p2: "batch_loop self v papers dir ?parser (int b) limit lg
              (map ?f [0..<m]) [] st = (Inr agg, st1)"
    using p1 unfolding tk .
  have ne: "map ?f [0..<m] \<noteq> []" using m by simp
  have "batch_loop self v papers dir ?parser (int b) limit lg (map ?f [0..<?M]) [] st
        = (Inr agg, st1)"
    unfolding split batch_loop_append p2 using ne lim by simp
  then show ?thesis
    unfolding batch_scrape_def Let_def b(2) py_range_positive[OF b(1), of ?n] by simp
qed

section \<open>The concrete registry is reachable, and its run\<close>

lemma register_A:
  "register_scraper (\<lambda>r. r) (init cb) (returning False ''a_scraper'') None None (Some ''A'')
     (Some False) None
   = Inr \<lparr>scrapers = [strategy_A], sorted_scrapers = [[strategy_A]], callback = cb\<rparr>"
  by (simp add: Let_def register_scraper_def init_def default_def sort_reverse_def reshape_def
        strategy_A_def)

lemma register_B:
  "register_scraper (\<lambda>r. r)
     \<lparr>scrapers = [strategy_A], sorted_scrapers = [[strategy_A]], callback = cb\<rparr>
     (raising (Exception ''RuntimeError'') ''b_scraper'') None (Some 10) (Some ''B'') (Some False)
     None
   = Inr (registry_AB cb)"
  by (simp add: Let_def register_scraper_def default_def sort_reverse_def reshape_def
        strategy_A_def strategy_B_def registry_AB_def)

lemma register_C:
  "register_scraper (\<lambda>r. r) (registry_AB cb) (returning True ''c_scraper'') None (Some 5)
     (Some ''C'') (Some False) None
   = Inr (registry_ABC cb)"
  by (simp add: Let_def register_scraper_def default_def sort_reverse_def reshape_def
        strategy_A_def strategy_B_def strategy_C_def registry_AB_def registry_ABC_def)

lemma reachable_AB: "reachable (registry_AB cb)"
proof -
  have "reachable (init cb :: (real option, nat) Scraper)" by (rule reachable.fresh)
  then have "reachable
      (\<lparr>scrapers = [strategy_A], sorted_scrapers = [[strategy_A]], callback = cb\<rparr>
        :: (real option, nat) Scraper)"
    using register_A by (rule reachable.registered)
  then show ?thesis using register_B by (rule reachable.registered)
qed

lemma reachable_ABC: "reachable (registry_ABC cb)"
  using reachable_AB register_C by (rule reachable.registered)

lemmas run_defs =
  scrape_def attempt_def try_block_def success_path_def log_debug_def log_exception_def
  emit_def Let_def upt_rec
  registry_ABC_def registry_AB_def strategy_A_def strategy_B_def strategy_C_def
  returning_def raising_def reporter_def broken_reporter_def approving_def
  start_def paper_1_def registry_C_def strategy_X_def registry_X_def cancelled_reporter_def

lemma scrape_ABC:
  "scrape (registry_ABC (Some reporter)) approving paper_1 ''out/p1.pdf'' 1 None start =
     (Inr True, outcome_ABC, \<lparr>world = 5, trace = events_ABC\<rparr>)"
  by (simp add: run_defs events_ABC_def outcome_ABC_def)

lemma scrape_AB:
  "scrape (registry_AB (Some reporter)) approving paper_1 ''out/p1.pdf'' 1 None start =
     (Inr False, [(''A'', ''failed''), (''B'', ''failed'')], \<lparr>world = 3, trace = events_AB\<rparr>)"
  by (simp add: run_defs events_AB_def)

section \<open>The claims\<close>

text \<open>
  Claim C6. After any sequence of \<open>register_scraper\<close> calls, with duplicate names and
  duplicate priorities allowed, the sizes of the tiers of \<open>sorted_scrapers\<close> add up to the
  number of registered strategies, and the tiers hold exactly the registered strategies:
  none is lost and none is duplicated.
\<close>

theorem registry_partition:
  assumes "reachable self"
  shows "sum_list (map length (sorted_scrapers self)) = length (scrapers self) \<and>
         mset (concat (sorted_scrapers self)) = mset (scrapers self)"
  using reachable_plan[OF assms] by (simp add: length_concat_reshape mset_reshape)

theorem registry_partition_witness:
  "reachable (registry_ABC None) \<and>
   sum_list (map length (sorted_scrapers (registry_ABC None))) = 3 \<and>
   length (scrapers (registry_ABC None)) = 3 \<and>
   mset (concat (sorted_scrapers (registry_ABC None))) = mset (scrapers (registry_ABC None))"
  using registry_partition[OF reachable_ABC, of None] reachable_ABC[of None]
  by (simp add: registry_ABC_def)

text \<open>
  Claim C10. On a scraper without registered strategies, \<open>scrape\<close> returns \<open>False\<close> for
  every paper, path and rotation index; the outcome dictionary is empty and the run logs
  only its own start: the callback is not invoked.
\<close>

theorem empty_registry:
  "scrape (init cb) v p path i lg st = (Inr False, [], emit (Scrape p path i) st)"
  by (simp add: scrape_def init_def)

text \<open>
  Claim C1, amended. In every orchestration in which the fetch of some strategy \<open>s\<close>
  returns a true value and either \<open>s\<close> has no \<open>check_pdf\<close> flag or the validator approves
  the destination, and in which the reporter does not raise, \<open>scrape\<close> returns \<open>True\<close> and
  \<open>s\<close> is marked \<open>"success"\<close>; \<open>s\<close> is the first strategy that delivered; after its fetch no
  other strategy is invoked and the reporter, when there is one, is invoked exactly once,
  with the final outcome dictionary.
\<close>

theorem scrape_first_success:
  assumes run: "scrape self v p path i lg st = (r, res, st')"
    and evs: "trace st' = trace st @ evs"
    and del: "delivered path lg evs s"
    and rep: "\<not> reporter_raised evs"
  shows "r = Inr True \<and> map_of res (name s) = Some ''success'' \<and>
         (\<exists>xs ys. evs = xs @ Fetch s (Inr True) # ys \<and>
            (\<forall>s'. \<not> delivered path lg xs s') \<and> fetched ys = [] \<and>
            reports ys = (case callback self of None \<Rightarrow> [] | Some cb \<Rightarrow> [(title p, res)]))"
proof -
  from scrape_shape[OF run evs] obtain el where el: "evs = Scrape p path i # el"
    and lp: "loop_post self p path lg i (rev (sorted_scrapers self))
             (fold (\<lambda>s. AList.update (name s) ''none'') (scrapers self) []) r res el"
    by blast
  have w: "won path lg el s" using delivered_won[OF del] el by simp
  have nr: "\<not> reporter_raised el" using rep el by simp
  have "r = Inr True"
  proof (cases r)
    case (Inl e)
    with lp have "(\<forall>s. \<not> won path lg el s) \<and> base_raised el \<or> reporter_raised el"
      unfolding loop_post_def by blast
    with w nr show ?thesis by blast
  next
    case (Inr b)
    show ?thesis
    proof (cases b)
      case True
      with Inr show ?thesis by simp
    next
      case False
      with Inr lp have "calm path lg el" unfolding loop_post_def by blast
      with w nr show ?thesis by (auto simp: calm_def)
    qed
  qed
  with lp have "success_tail self p path lg res el" unfolding loop_post_def by blast
  then obtain xs s0 ys res0 where d: "el = xs @ Fetch s0 (Inr True) # ys" "fetched ys = []"
        "reports ys = cbrep self p res" "res = AList.update (name s0) ''success'' res0"
        "calm path lg xs"
        "won path lg (Fetch s0 (Inr True) # ys) s0"
        "\<forall>s'. s' \<noteq> s0 \<longrightarrow> \<not> won path lg (Fetch s0 (Inr True) # ys) s'"
        "\<not> reporter_raised ys"
    unfolding success_tail_def by blast
  have nrx: "\<not> reporter_raised xs" using nr d(1) by simp
  with d(5) have nx: "\<forall>s'. \<not> won path lg xs s'" by (simp add: calm_def)
  have "won path lg xs s \<or> won path lg (Fetch s0 (Inr True) # ys) s"
    using w d(1) by (simp only: won_append)
  with nx d(7) have s0: "s0 = s" by metis
  have 1: "map_of res (name s) = Some ''success''"
    using d(4) s0 by (simp add: update_conv')
  have 2: "evs = (Scrape p path i # xs) @ Fetch s (Inr True) # ys"
    using el d(1) s0 by simp
  have 3: "\<forall>s'. \<not> delivered path lg (Scrape p path i # xs) s'"
    using nx delivered_won by fastforce
  have 4: "reports ys = (case callback self of None \<Rightarrow> [] | Some cb \<Rightarrow> [(title p, res)])"
    using d(3) by (simp add: cbrep_def)
  from \<open>r = Inr True\<close> 1 2 3 d(2) 4 show ?thesis by blast
qed

theorem scrape_first_success_witness:
  "delivered ''out/p1.pdf'' None events_ABC strategy_C \<and> \<not> reporter_raised events_ABC \<and>
   map_of outcome_ABC ''C'' = Some ''success'' \<and>
   (\<exists>xs ys. events_ABC = xs @ Fetch strategy_C (Inr True) # ys \<and>
      (\<forall>s'. \<not> delivered ''out/p1.pdf'' None xs s') \<and> fetched ys = [] \<and>
      reports ys = [(''Paper one'', outcome_ABC)])"
proof -
  have h1: "delivered ''out/p1.pdf'' None events_ABC strategy_C"
    by (simp add: delivered_def events_ABC_def strategy_C_def)
  have h2: "\<not> reporter_raised events_ABC"
    by (simp add: events_ABC_def)
  have t: "trace \<lparr>world = 5, trace = events_ABC\<rparr> = trace start @ events_ABC"
    by (simp add: start_def)
  from scrape_first_success[OF scrape_ABC t h1 h2] h1 h2 show ?thesis
    by (simp add: registry_ABC_def paper_1_def strategy_C_def)
qed

text \<open>
  Claim C1 as stated, without the condition on the reporter, fails: the callback of line 93
  is called inside the \<open>try\<close>, so when it raises, the strategy that delivered is marked
  \<open>"failed"\<close> and \<open>scrape\<close> does not return \<open>True\<close>. Here \<open>C\<close> delivers and the reporter
  raises \<open>ValueError\<close>, at line 93 and again at line 100.
\<close>

theorem delivery_lost_counterexample:
  "scrape (registry_C (Some broken_reporter)) approving paper_1 ''out/p1.pdf'' 0 None start =
     (Inl (Exception ''ValueError''), [(''C'', ''failed'')],
      \<lparr>world = 3, trace =
         [Scrape paper_1 ''out/p1.pdf'' 0,
          Fetch strategy_C (Inr True),
          Callback ''Paper one'' [(''C'', ''success'')] (Inl (Exception ''ValueError'')),
          Callback ''Paper one'' [(''C'', ''failed'')] (Inl (Exception ''ValueError''))]\<rparr>)"
  by (simp add: run_defs)



text \<open>
  Claim C5, amended. For every registry built by registrations and every paper: when no
  strategy delivers in the run (each fetch returns a false value, raises an instance of
  \<open>Exception\<close>, or is refused by the validator) and the reporter does not raise, \<open>scrape\<close>
  returns \<open>False\<close>, every strategy was invoked and is marked \<open>"failed"\<close> in the outcome
  dictionary, and the reporter was called once after each tier, with a dictionary in which
  all strategies of that tier are \<open>"failed"\<close>.
\<close>

theorem scrape_exhaustion:
  assumes reach: "reachable self"
    and run: "scrape self v p path i lg st = (r, res, st')"
    and evs: "trace st' = trace st @ evs"
    and none: "\<forall>s. \<not> delivered path lg evs s"
    and rep: "\<not> reporter_raised evs"
    and base: "\<not> base_raised evs"
  shows "r = Inr False \<and> fetched evs = visit_order i (sorted_scrapers self) \<and>
         (\<forall>s\<in>set (scrapers self). map_of res (name s) = Some ''failed'') \<and>
         (callback self \<noteq> None \<longrightarrow>
            list_all2 (\<lambda>tier (t, m). t = title p \<and>
                         (\<forall>s\<in>set tier. map_of m (name s) = Some ''failed''))
              (rev (sorted_scrapers self)) (reports evs))"
proof -
  let ?res0 = "fold (\<lambda>s. AList.update (name s) ''none'') (scrapers self) []"
  let ?tiers = "rev (sorted_scrapers self)"
  from scrape_shape[OF run evs] obtain el where el: "evs = Scrape p path i # el"
    and cf: "checks_follow el"
    and lp: "loop_post self p path lg i ?tiers ?res0 r res el"
    by blast
  have nw: "\<forall>s. \<not> won path lg el s"
  proof (intro allI notI)
    fix s assume "won path lg el s"
    then have "delivered path lg el s" by (rule checks_follow_won[OF cf])
    then have "delivered path lg evs s" using el by simp
    with none show False by blast
  qed
  have nr: "\<not> reporter_raised el" and nb: "\<not> base_raised el" using rep base el by simp_all
  have r: "r = Inr False"
  proof (cases r)
    case (Inl e)
    with lp have "(\<forall>s. \<not> won path lg el s) \<and> base_raised el \<or> reporter_raised el"
      unfolding loop_post_def by blast
    with nr nb show ?thesis by blast
  next
    case (Inr b)
    show ?thesis
    proof (cases b)
      case False
      with Inr show ?thesis by simp
    next
      case True
      with Inr lp have "success_tail self p path lg res el" unfolding loop_post_def by blast
      then obtain xs s0 ys where "el = xs @ Fetch s0 (Inr True) # ys"
        "won path lg (Fetch s0 (Inr True) # ys) s0"
        unfolding success_tail_def by blast
      then have "won path lg el s0" by (simp only: won_append) simp
      with nw show ?thesis by blast
    qed
  qed
  with lp nr have f: "fetched el = concat (map (tier_order i) ?tiers)"
    and m: "res = mark_failed (concat (map (tier_order i) ?tiers)) ?res0"
    and rp: "reports el = tier_reports self p i ?tiers ?res0"
    unfolding loop_post_def by blast+
  have plan: "mset (concat (sorted_scrapers self)) = mset (scrapers self)"
    using reachable_plan[OF reach] by (simp add: mset_reshape)
  have "set (concat (map (tier_order i) ?tiers)) = set (concat (sorted_scrapers self))"
    by auto
  also have "\<dots> = set (scrapers self)"
    using plan by (metis set_mset_mset)
  finally have all: "set (concat (map (tier_order i) ?tiers)) = set (scrapers self)" .
  have 3: "\<forall>s\<in>set (scrapers self). map_of res (name s) = Some ''failed''"
  proof
    fix s assume "s \<in> set (scrapers self)"
    then have "name s \<in> name ` set (concat (map (tier_order i) ?tiers))"
      unfolding all by (rule imageI)
    then show "map_of res (name s) = Some ''failed''"
      unfolding m map_of_mark_failed by (rule if_P)
  qed
  have 4: "callback self \<noteq> None \<longrightarrow>
            list_all2 (\<lambda>tier (t, m). t = title p \<and>
                         (\<forall>s\<in>set tier. map_of m (name s) = Some ''failed''))
              ?tiers (reports evs)"
  proof
    assume "callback self \<noteq> None"
    then obtain cb where "callback self = Some cb" by blast
    from tier_reports_snapshots[OF this, of p ?tiers i ?res0]
    show "list_all2 (\<lambda>tier (t, m). t = title p \<and>
                         (\<forall>s\<in>set tier. map_of m (name s) = Some ''failed''))
              ?tiers (reports evs)"
      using rp el by simp
  qed
  have 2: "fetched evs = visit_order i (sorted_scrapers self)"
    using f el by (simp add: visit_order_def)
  from r 2 3 4 show ?thesis by blast
qed

theorem scrape_exhaustion_witness:
  "reachable (registry_AB (Some reporter)) \<and>
   (\<forall>s. \<not> delivered ''out/p1.pdf'' None events_AB s) \<and>
   \<not> reporter_raised events_AB \<and> \<not> base_raised events_AB \<and>
   fetched events_AB = visit_order 1 (sorted_scrapers (registry_AB (Some reporter))) \<and>
   reports events_AB = [(''Paper one'', [(''A'', ''failed''), (''B'', ''failed'')])]"
proof -
  have t: "trace \<lparr>world = 3, trace = events_AB\<rparr> = trace start @ events_AB"
    by (simp add: start_def)
  have h1: "\<forall>s. \<not> delivered ''out/p1.pdf'' None events_AB s"
    by (simp add: delivered_def events_AB_def)
  have h2: "\<not> reporter_raised events_AB" "\<not> base_raised events_AB"
    by (simp_all add: events_AB_def)
  have rp: "reports events_AB = [(''Paper one'', [(''A'', ''failed''), (''B'', ''failed'')])]"
    by (simp add: events_AB_def)
  from scrape_exhaustion[OF reachable_AB scrape_AB t h1 h2]
  have "fetched events_AB = visit_order 1 (sorted_scrapers (registry_AB (Some reporter)))"
    by blast
  with reachable_AB h1 h2 rp show ?thesis by blast
qed

text \<open>
  Claim C5 as stated fails in two ways. The callback of line 100 is outside the \<open>try\<close>:
  when \<open>A\<close> returns a false value, \<open>B\<close> raises and the reporter raises after the tier,
  \<open>scrape\<close> raises instead of returning \<open>False\<close>. And \<open>except Exception\<close> does not catch a
  cancellation: when the only strategy raises \<open>CancelledError\<close>, \<open>scrape\<close> raises it and the
  strategy is still \<open>"none"\<close>.
\<close>

theorem exhaustion_raises_counterexample:
  "scrape (registry_AB (Some broken_reporter)) approving paper_1 ''out/p1.pdf'' 1 None start =
     (Inl (Exception ''ValueError''), [(''A'', ''failed''), (''B'', ''failed'')],
      \<lparr>world = 3, trace =
         [Scrape paper_1 ''out/p1.pdf'' 1,
          Fetch strategy_B (Inl (Exception ''RuntimeError'')),
          Fetch strategy_A (Inr False),
          Callback ''Paper one'' [(''A'', ''failed''), (''B'', ''failed'')]
            (Inl (Exception ''ValueError''))]\<rparr>) \<and>
   scrape (registry_X None) approving paper_1 ''out/p1.pdf'' 0 None start =
     (Inl (BaseException ''CancelledError''), [(''X'', ''none'')],
      \<lparr>world = 1, trace =
         [Scrape paper_1 ''out/p1.pdf'' 0,
          Fetch strategy_X (Inl (BaseException ''CancelledError''))]\<rparr>)"
  by (simp add: run_defs)

text \<open>
  Claim C3, amended. When the fetch of a strategy raises an instance of \<open>Exception\<close> (what
  \<open>except Exception\<close> catches), the attempt does not raise: the exception is logged, the
  strategy is marked \<open>"failed"\<close> and the loop over the tier goes on with the next offset of
  the rotated order. What \<open>scrape\<close> itself raises is never such an exception of a fetch: it
  is either outside \<open>Exception\<close> or what the reporter raised, after a tier, in the last call
  of the run.
\<close>

theorem fetch_exception_recovered:
  assumes raised: "call (function s) p path (kwargs s) (world st) = (Inl (Exception n), w)"
  shows "attempt self v p path lg s res st =
           (Normal, AList.update (name s) ''failed'' res,
            log_exception lg ([CHR 0x09] @ ''Scraper '' @ name s @ '' failed.'')
              (emit (Fetch s (Inl (Exception n))) (st\<lparr>world := w\<rparr>))) \<and>
         (pick i tier j = s \<longrightarrow>
            tier_loop self v p path i lg tier (j # js) res st =
            tier_loop self v p path i lg tier js (AList.update (name s) ''failed'' res)
              (log_exception lg ([CHR 0x09] @ ''Scraper '' @ name s @ '' failed.'')
                 (emit (Fetch s (Inl (Exception n))) (st\<lparr>world := w\<rparr>)))) \<and>
         (\<forall>i' st0 x res' st' evs.
            scrape self v p path i' lg st0 = (Inl x, res', st') \<and> trace st' = trace st0 @ evs \<longrightarrow>
            (\<exists>m. x = BaseException m) \<or> (\<exists>pre t d. evs = pre @ [Callback t d (Inl x)]))"
proof -
  have a: "attempt self v p path lg s res st =
           (Normal, AList.update (name s) ''failed'' res,
            log_exception lg ([CHR 0x09] @ ''Scraper '' @ name s @ '' failed.'')
              (emit (Fetch s (Inl (Exception n))) (st\<lparr>world := w\<rparr>)))"
    using raised by (simp add: attempt_def try_block_def)
  have b: "pick i tier j = s \<longrightarrow>
            tier_loop self v p path i lg tier (j # js) res st =
            tier_loop self v p path i lg tier js (AList.update (name s) ''failed'' res)
              (log_exception lg ([CHR 0x09] @ ''Scraper '' @ name s @ '' failed.'')
                 (emit (Fetch s (Inl (Exception n))) (st\<lparr>world := w\<rparr>)))"
    using a by (auto simp: pick_def)
  from a b scrape_raises show ?thesis by blast
qed

theorem fetch_exception_recovered_witness:
  "call (function strategy_B) paper_1 ''out/p1.pdf'' (kwargs strategy_B) (world start)
     = (Inl (Exception ''RuntimeError''), 1) \<and>
   attempt (registry_AB (Some reporter)) approving paper_1 ''out/p1.pdf'' None strategy_B [] start
     = (Normal, [(''B'', ''failed'')],
        \<lparr>world = 1, trace = [Fetch strategy_B (Inl (Exception ''RuntimeError''))]\<rparr>)"
proof -
  have h: "call (function strategy_B) paper_1 ''out/p1.pdf'' (kwargs strategy_B) (world start)
     = (Inl (Exception ''RuntimeError''), 1)"
    by (simp add: strategy_B_def raising_def start_def)
  from fetch_exception_recovered[OF h, of "registry_AB (Some reporter)" approving None "[]"] h
  show ?thesis
    by (simp add: log_exception_def emit_def start_def strategy_B_def)
qed

text \<open>
  Claim C3 as stated, for every exception, fails: a fetch that raises \<open>CancelledError\<close>,
  which is not an \<open>Exception\<close>, is not caught at line 95; the attempt raises, the strategy
  stays \<open>"none"\<close> and \<open>scrape\<close> raises the same.
\<close>

theorem fetch_cancelled_counterexample:
  "attempt (registry_X None) approving paper_1 ''out/p1.pdf'' None strategy_X
     [(''X'', ''none'')] start =
     (Raise (BaseException ''CancelledError''), [(''X'', ''none'')],
      \<lparr>world = 1, trace = [Fetch strategy_X (Inl (BaseException ''CancelledError''))]\<rparr>) \<and>
   fst (scrape (registry_X None) approving paper_1 ''out/p1.pdf'' 0 None start) =
     Inl (BaseException ''CancelledError'')"
  by (simp add: run_defs)






text \<open>
  Claim C4, amended. \<open>register_scraper\<close> raises no \<open>ConfigurationError\<close>. A registration
  without a name takes the name from \<open>func.__name__\<close> with \<open>"_scraper"\<close> removed (and fails
  with \<open>AttributeError\<close> only when the callable has no \<open>__name__\<close>); a registration without
  a priority takes the priority 10. In every other case the registration succeeds: it adds
  one strategy with the given or default fields and recomputes the tiers.
\<close>

theorem register_scraper_defaults:
  "register_scraper new_session self f attach_session prio nm chk rate_limit
     \<noteq> Inl (Exception ''ConfigurationError'') \<and>
   (nm = None \<and> dunder_name f = None \<longrightarrow>
      register_scraper new_session self f attach_session prio nm chk rate_limit
        = Inl (Exception ''AttributeError'')) \<and>
   (\<forall>n. (nm = Some n \<or> nm = None \<and> dunder_name f = Some n) \<longrightarrow>
      (\<exists>self'. register_scraper new_session self f attach_session prio nm chk rate_limit
                 = Inr self' \<and>
         mset (scrapers self') =
           add_mset \<lparr>function = f, priority = default 10 prio,
                      kwargs = (if default False attach_session
                                then [(''session'',
                                       new_session (default (Some (15 / 60)) rate_limit))]
                                else []),
                      name = (if nm = None then replace ''_scraper'' '''' n else n),
                      check_pdf = default True chk\<rparr>
             (mset (scrapers self)) \<and>
         sorted_scrapers self' = reshape (scrapers self') \<and>
         callback self' = callback self))"
  by (auto simp: register_scraper_def Let_def mset_sort_reverse split: option.splits)

theorem register_scraper_defaults_witness:
  "\<exists>self'. register_scraper (\<lambda>r. r) (init None) (returning False ''a_scraper'') None None None
              None None = Inr self' \<and>
     mset (scrapers self') =
       {#\<lparr>function = returning False ''a_scraper'', priority = 10, kwargs = [], name = ''a'',
           check_pdf = True\<rparr>#}"
proof -
  have h: "(None :: string option) = Some ''a_scraper'' \<or>
           (None :: string option) = None \<and>
           dunder_name (returning False ''a_scraper'') = Some ''a_scraper''"
    by (simp add: returning_def)
  have r: "replace ''_scraper'' '''' ''a_scraper'' = ''a''" by simp
  from register_scraper_defaults[of "\<lambda>r. r" "init None" "returning False ''a_scraper''"
      None None None None None] h
  obtain self' where "register_scraper (\<lambda>r. r) (init None) (returning False ''a_scraper'')
      None None None None None = Inr self'"
    "mset (scrapers self') =
           add_mset \<lparr>function = returning False ''a_scraper'', priority = default 10 None,
                      kwargs = (if default False None
                                then [(''session'', default (Some (15 / 60)) None)]
                                else []),
                      name = (if (None :: string option) = None
                              then replace ''_scraper'' '''' ''a_scraper'' else ''a_scraper''),
                      check_pdf = default True None\<rparr>
             (mset (scrapers (init None)))"
    by blast
  then show ?thesis
    by (intro exI[of _ self']) (simp add: default_def init_def r)
qed

text \<open>
  Claim C4 as stated fails: registering a coroutine function with neither name nor priority
  raises nothing and adds the strategy under the name \<open>"a"\<close> with priority 10.
\<close>

theorem register_without_name_counterexample:
  "register_scraper (\<lambda>r. r) (init None) (returning False ''a_scraper'') None None None None None
   = Inr \<lparr>scrapers = [\<lparr>function = returning False ''a_scraper'', priority = 10, kwargs = [],
                         name = ''a'', check_pdf = True\<rparr>],
          sorted_scrapers = [[\<lparr>function = returning False ''a_scraper'', priority = 10,
                                kwargs = [], name = ''a'', check_pdf = True\<rparr>]],
          callback = None\<rparr>"
  by (simp add: Let_def register_scraper_def init_def default_def sort_reverse_def reshape_def
        returning_def)

end
